theory Spec2Isabelle
  imports Complex_Main "HOL-Library.Word" "HOL-Library.Multiset"
begin

unbundle bit_operations_syntax

section \<open>Data model\<close>

text \<open>
  \<^verbatim>\<open>type Color struct { R, G, B uint32 }\<close>. Go compares structs field by field, which is
  the equality of the record.
\<close>

record Color =
  R :: "32 word"
  G :: "32 word"
  B :: "32 word"

text \<open>
  The ways the modelled code can end without a value that the language fixes: the two
  run-time panics, and the conversion to \<^verbatim>\<open>int\<close> of a \<^verbatim>\<open>float64\<close> that does not fit,
  whose result Go leaves to the implementation. A function that can end so returns
  \<open>failure + 'a\<close>, with \<open>Inl\<close> for the failure.
\<close>

datatype failure = IndexOutOfRange | DivideByZero | UnspecifiedConversion

section \<open>Frequency aggregator\<close>

text \<open>
  \<^verbatim>\<open>frequencyMap[num]++\<close> on a \<^verbatim>\<open>map[int]int\<close>: a missing key reads as 0.
  The channel is modelled by the list of the values received from it.
\<close>

definition increment :: "(int \<rightharpoonup> int) \<Rightarrow> int \<Rightarrow> (int \<rightharpoonup> int)" where
  "increment frequencyMap num =
     frequencyMap(num \<mapsto> (case frequencyMap num of None \<Rightarrow> 0 | Some freq \<Rightarrow> freq) + 1)"

definition tally :: "int list \<Rightarrow> (int \<rightharpoonup> int)" where
  "tally arr = fold (\<lambda>num frequencyMap. increment frequencyMap num) arr Map.empty"

text \<open>
  \<^verbatim>\<open>for num, freq := range frequencyMap\<close>: Go leaves the order in which a map is
  ranged over unspecified. The order is the parameter \<open>order\<close>, the list of the keys
  as the loop meets them; a value that is no key of the map is never met and is skipped.
  A pair \<^verbatim>\<open>[]int{num, freq}\<close> is the HOL pair \<open>(num, freq)\<close>.
\<close>

fun collect :: "(int \<rightharpoonup> int) \<Rightarrow> int list \<Rightarrow> (int \<times> int) list \<times> int \<Rightarrow> (int \<times> int) list \<times> int" where
  "collect frequencyMap [] acc = acc"
| "collect frequencyMap (num # order) (pairs, totalFrequency) =
     (case frequencyMap num of
        None \<Rightarrow> collect frequencyMap order (pairs, totalFrequency)
      | Some freq \<Rightarrow> collect frequencyMap order (pairs @ [(num, freq)], totalFrequency + freq))"

text \<open>\<^verbatim>\<open>pairs[i][pairChoice]\<close>: component 0 is the period, component 1 the count.\<close>

definition component :: "nat \<Rightarrow> int \<times> int \<Rightarrow> int" where
  "component pairChoice pair = (if pairChoice = 0 then fst pair else snd pair)"

text \<open>
  \<^verbatim>\<open>sort.Slice(pairs, func(i, j) { return pairs[i][pairChoice] > pairs[j][pairChoice] })\<close>:
  descending in the chosen component. \<^verbatim>\<open>sort.Slice\<close> does not promise an order among
  equal keys; the model sorts stably, so the order among equal keys is the one of
  \<open>order\<close>, over which the theorems quantify.
\<close>

definition sortSlice :: "nat \<Rightarrow> (int \<times> int) list \<Rightarrow> (int \<times> int) list" where
  "sortSlice pairChoice pairs = sort_key (\<lambda>pair. - component pairChoice pair) pairs"

definition frequencyPairs :: "int list \<Rightarrow> int list \<Rightarrow> bool \<Rightarrow> (int \<times> int) list \<times> int" where
  "frequencyPairs order arr preferFrequency =
     (let frequencyMap = tally arr;
          (pairs, totalFrequency) = collect frequencyMap order ([], 0);
          pairChoice = (if preferFrequency then 1 else 0)
      in (sortSlice pairChoice pairs, totalFrequency))"

text \<open>The orders a \<^verbatim>\<open>range\<close> over the map of \<open>arr\<close> can take: every key once.\<close>

definition range_order :: "int list \<Rightarrow> int list \<Rightarrow> bool" where
  "range_order order arr \<longleftrightarrow> distinct order \<and> set order = set arr"

section \<open>Colour distance and the lossy detector\<close>

text \<open>
  \<^verbatim>\<open>int(x.R - y.R)\<close>: the subtraction is done in \<^verbatim>\<open>uint32\<close> and wraps; the conversion
  to \<^verbatim>\<open>int\<close> (64 bits on the usual platforms) keeps the unsigned value. The products
  and sums are 64-bit and wrap; \<open>sint\<close> reads the result.
\<close>

definition ColorDiff :: "Color \<Rightarrow> Color \<Rightarrow> 64 word" where
  "ColorDiff x y =
     (let R' = (ucast (R x - R y) :: 64 word);
          G' = (ucast (G x - G y) :: 64 word);
          B' = (ucast (B x - B y) :: 64 word)
      in R' * R' + G' * G' + B' * B')"

text \<open>
  The inner loop of \<^verbatim>\<open>ArrayPeriodicityJPGPlus\<close>:
  \<^verbatim>\<open>for idx, color := range colors { sum += ColorDiff(colors[(idx + k) % n], color) }\<close>.
  The loop body runs only for a non-empty slice, and then \<open>(idx + k) mod n < n\<close>:
  the index is in range.
\<close>

definition shiftSum :: "Color list \<Rightarrow> nat \<Rightarrow> 64 word" where
  "shiftSum colors k =
     fold (\<lambda>(idx, color) sum. sum + ColorDiff (colors ! ((idx + k) mod length colors)) color)
          (enumerate 0 colors) 0"

text \<open>The loop over \<open>k\<close>, with the state \<open>minsum\<close>, \<open>minidx\<close>; \<^verbatim>\<open>sum < minsum\<close> is signed.\<close>

function shiftLoop :: "Color list \<Rightarrow> nat \<Rightarrow> 64 word \<Rightarrow> nat \<Rightarrow> nat" where
  "shiftLoop colors k minsum minidx =
     (if k < length colors then
        (let sum = shiftSum colors k in
         if k = 1 then shiftLoop colors (k + 1) sum minidx
         else if sum <s minsum then shiftLoop colors (k + 1) sum k
         else shiftLoop colors (k + 1) minsum minidx)
      else minidx)"
  by pat_completeness auto
termination
  by (relation "measure (\<lambda>(colors, k, minsum, minidx). length colors - k)") auto

declare shiftLoop.simps [simp del]

definition ArrayPeriodicityJPGPlus :: "Color list \<Rightarrow> int" where
  "ArrayPeriodicityJPGPlus colors = int (shiftLoop colors 1 0 1)"

section \<open>The lossless detector\<close>

text \<open>
  The inner loop of \<^verbatim>\<open>ArrayPeriodicityPNG\<close>:
  \<^verbatim>\<open>for j > 0 && colors[i] != colors[j] { j = prefixArray[j - 1] }\<close>.
  Every index is checked as Go checks it. Nothing in the loop itself bounds the number
  of rounds, so the result is an option and \<open>None\<close> stands for a loop that never ends.
  \<open>j\<close> only ever holds 0, a successor, or a value read back from \<open>prefixArray\<close>:
  it is a natural number.
\<close>

partial_function (option) fallback :: "Color list \<Rightarrow> nat list \<Rightarrow> nat \<Rightarrow> nat \<Rightarrow> (failure + nat) option" where
  "fallback colors prefixArray i j =
     (if j > 0 then
        (if i < length colors \<and> j < length colors then
           (if colors ! i \<noteq> colors ! j then
              (if j - 1 < length prefixArray
               then fallback colors prefixArray i (prefixArray ! (j - 1))
               else Some (Inl IndexOutOfRange))
            else Some (Inr j))
         else Some (Inl IndexOutOfRange))
      else Some (Inr j))"

declare fallback.simps [code]

text \<open>The loop \<^verbatim>\<open>for i := 1; i < n; i++\<close>; it returns the filled \<open>prefixArray\<close>.\<close>

function prefixLoop :: "Color list \<Rightarrow> nat list \<Rightarrow> nat \<Rightarrow> nat \<Rightarrow> (failure + nat list) option" where
  "prefixLoop colors prefixArray j i =
     (if i < length colors then
        (case fallback colors prefixArray i j of
           None \<Rightarrow> None
         | Some (Inl e) \<Rightarrow> Some (Inl e)
         | Some (Inr j1) \<Rightarrow>
             (if j1 < length colors then
                (let j2 = (if colors ! i = colors ! j1 then j1 + 1 else j1) in
                 if i < length prefixArray
                 then prefixLoop colors (prefixArray[i := j2]) j2 (i + 1)
                 else Some (Inl IndexOutOfRange))
              else Some (Inl IndexOutOfRange)))
      else Some (Inr prefixArray))"
  by pat_completeness auto
termination
  by (relation "measure (\<lambda>(colors, prefixArray, j, i). length colors - i)") auto

declare prefixLoop.simps [simp del]

text \<open>
  \<^verbatim>\<open>return n - prefixArray[n - 1]\<close>: for \<open>n = 0\<close> the index is \<open>-1\<close>, which panics.
\<close>

definition ArrayPeriodicityPNG :: "Color list \<Rightarrow> (failure + int) option" where
  "ArrayPeriodicityPNG colors =
     (let n = length colors;
          prefixArray = replicate n 0
      in case prefixLoop colors prefixArray 0 1 of
           None \<Rightarrow> None
         | Some (Inl e) \<Rightarrow> Some (Inl e)
         | Some (Inr prefixArray') \<Rightarrow>
             (if n = 0 then Some (Inl IndexOutOfRange)
              else Some (Inr (int n - int (prefixArray' ! (n - 1))))))"

section \<open>The float64 arithmetic of the selector\<close>

text \<open>
  A finite \<^verbatim>\<open>float64\<close> is the real number it stands for; an operation gives the exact
  result rounded to the nearest \<^verbatim>\<open>float64\<close>, ties to the even mantissa (IEEE 754
  binary64, which Go's \<^verbatim>\<open>float64\<close> is): 53 bits of mantissa, and below \<open>2^-1022\<close> the
  fixed step \<open>2^-1074\<close>. A result too large for a \<^verbatim>\<open>float64\<close> is an infinity in Go and a
  real beyond \<open>2^1024\<close> here; the only use made of such a value is its conversion to
  \<^verbatim>\<open>int\<close>, which is unspecified for both. The flags are finite numbers.
\<close>

text \<open>The integer part of the binary logarithm of a positive natural number.\<close>

function ilog2 :: "nat \<Rightarrow> nat" where
  "ilog2 n = (if n < 2 then 0 else Suc (ilog2 (n div 2)))"
  by pat_completeness auto
termination
  by (relation "measure id") auto

declare ilog2.simps [simp del]

text \<open>The binary exponent of a positive real: \<open>2^e \<le> x < 2^(e+1)\<close>.\<close>

definition exponent :: "real \<Rightarrow> int" where
  "exponent x =
     (if 1 \<le> x then int (ilog2 (nat \<lfloor>x\<rfloor>))
      else - int (Suc (ilog2 (nat \<lceil>1 / x\<rceil> - 1))))"

definition pow2 :: "int \<Rightarrow> real" where
  "pow2 e = (if 0 \<le> e then 2 ^ nat e else 1 / 2 ^ nat (- e))"

definition round_half_even :: "real \<Rightarrow> int" where
  "round_half_even x =
     (let f = \<lfloor>x\<rfloor>; r = x - of_int f
      in if r < 1 / 2 then f else if 1 / 2 < r then f + 1 else if even f then f else f + 1)"

definition round64 :: "real \<Rightarrow> real" where
  "round64 x =
     (if x = 0 then 0
      else (let q = pow2 (max (exponent \<bar>x\<bar> - 52) (- 1074))
            in sgn x * of_int (round_half_even (\<bar>x\<bar> / q)) * q))"

text \<open>
  Go's conversion \<^verbatim>\<open>int(f)\<close> of a float drops the fraction (rounds towards zero); when
  the value does not fit the 64-bit \<^verbatim>\<open>int\<close> the result depends on the implementation.
\<close>

definition int_of_float64 :: "real \<Rightarrow> int option" where
  "int_of_float64 f =
     (let i = (if 0 \<le> f then \<lfloor>f\<rfloor> else \<lceil>f\<rceil>)
      in if - (2 ^ 63) \<le> i \<and> i < 2 ^ 63 then Some i else None)"

section \<open>Threshold selector\<close>

text \<open>
  The flags: \<^verbatim>\<open>if rowPreferFrequency { rowTolerance = 0.0 } else { rowTolerance = rowTolerance / 100.0 }\<close>.
  \<open>percent\<close> is the value of the flag, a \<^verbatim>\<open>float64\<close>.
\<close>

definition tolerance :: "bool \<Rightarrow> real \<Rightarrow> real" where
  "tolerance preferFrequency percent =
     (if preferFrequency then 0 else round64 (percent / 100))"

text \<open>\<^verbatim>\<open>int(float64(rowTotalFrequency) * float64(rowTolerance))\<close>\<close>

definition threshold :: "int \<Rightarrow> real \<Rightarrow> int option" where
  "threshold totalFrequency tol =
     int_of_float64 (round64 (round64 (real_of_int totalFrequency) * tol))"

text \<open>
  \<^verbatim>\<open>for idx < len(pairs) && pairs[idx][1] < threshold { idx += 1 }\<close>
\<close>

function scan :: "(int \<times> int) list \<Rightarrow> int \<Rightarrow> nat \<Rightarrow> nat" where
  "scan pairs thr idx =
     (if idx < length pairs \<and> snd (pairs ! idx) < thr then scan pairs thr (idx + 1) else idx)"
  by pat_completeness auto
termination
  by (relation "measure (\<lambda>(pairs, thr, idx). length pairs - idx)") auto

declare scan.simps [simp del]

text \<open>
  The percentage that is printed:
  \<^verbatim>\<open>(float64(rowPairs[...][1]) / float64(rowTotalFrequency)) * 100.0\<close>. It is computed
  for a pair of the list only, so the total is at least 1.
\<close>

definition percentage :: "int \<Rightarrow> int \<Rightarrow> real" where
  "percentage freq totalFrequency =
     round64 (round64 (round64 (real_of_int freq) / round64 (real_of_int totalFrequency)) * 100)"

text \<open>
  The selection. With no pair the loop condition stops at \<open>idx < len(pairs)\<close>, the
  threshold is never computed, and \<^verbatim>\<open>rowPairs[rowPeriodicityIdx % len(rowPairs)]\<close>
  panics on the remainder by 0. Otherwise the threshold is computed, the list is
  scanned, and the result is the selected period and the percentage that is printed.
\<close>

definition selectPeriod :: "(int \<times> int) list \<Rightarrow> int \<Rightarrow> real \<Rightarrow> failure + (int \<times> real)" where
  "selectPeriod pairs totalFrequency tol =
     (if length pairs = 0 then Inl DivideByZero
      else case threshold totalFrequency tol of
             None \<Rightarrow> Inl UnspecifiedConversion
           | Some thr \<Rightarrow>
               (let idx = scan pairs thr 0;
                    pair = pairs ! (idx mod length pairs)
                in Inr (fst pair, percentage (snd pair) totalFrequency)))"

section \<open>Crop extractor\<close>

text \<open>
  The crop is done by Go's standard packages \<^verbatim>\<open>image\<close> and \<^verbatim>\<open>image/draw\<close>; the part of
  them that \<^verbatim>\<open>main\<close> calls is modelled after their documented behaviour.
  A pixel of the output buffer is the four 8-bit channels of \<^verbatim>\<open>image.RGBA\<close>; the source
  image gives, at each point, the colour as \<^verbatim>\<open>draw.Draw\<close> stores it in such a buffer.
\<close>

type_synonym rgba = "8 word \<times> 8 word \<times> 8 word \<times> 8 word"

record Point =
  X :: int
  Y :: int

record Rectangle =
  Min' :: Point
  Max' :: Point

record Image =
  Bounds :: Rectangle
  At :: "Point \<Rightarrow> rgba"

text \<open>\<^verbatim>\<open>image.Rect\<close> swaps the coordinates of an axis when they come in the wrong order.\<close>

definition Rect :: "int \<Rightarrow> int \<Rightarrow> int \<Rightarrow> int \<Rightarrow> Rectangle" where
  "Rect x0 y0 x1 y1 =
     \<lparr>Min' = \<lparr>X = (if x0 > x1 then x1 else x0), Y = (if y0 > y1 then y1 else y0)\<rparr>,
      Max' = \<lparr>X = (if x0 > x1 then x0 else x1), Y = (if y0 > y1 then y0 else y1)\<rparr>\<rparr>"

definition Empty :: "Rectangle \<Rightarrow> bool" where
  "Empty r \<longleftrightarrow> X (Min' r) \<ge> X (Max' r) \<or> Y (Min' r) \<ge> Y (Max' r)"

definition ZR :: Rectangle where
  "ZR = \<lparr>Min' = \<lparr>X = 0, Y = 0\<rparr>, Max' = \<lparr>X = 0, Y = 0\<rparr>\<rparr>"

definition Intersect :: "Rectangle \<Rightarrow> Rectangle \<Rightarrow> Rectangle" where
  "Intersect r s =
     (let r' = \<lparr>Min' = \<lparr>X = max (X (Min' r)) (X (Min' s)), Y = max (Y (Min' r)) (Y (Min' s))\<rparr>,
                Max' = \<lparr>X = min (X (Max' r)) (X (Max' s)), Y = min (Y (Max' r)) (Y (Max' s))\<rparr>\<rparr>
      in if Empty r' then ZR else r')"

definition Sub :: "Point \<Rightarrow> Point \<Rightarrow> Point" where
  "Sub p q = \<lparr>X = X p - X q, Y = Y p - Y q\<rparr>"

definition AddPoint :: "Point \<Rightarrow> Point \<Rightarrow> Point" where
  "AddPoint p q = \<lparr>X = X p + X q, Y = Y p + Y q\<rparr>"

definition Add :: "Rectangle \<Rightarrow> Point \<Rightarrow> Rectangle" where
  "Add r p = \<lparr>Min' = AddPoint (Min' r) p, Max' = AddPoint (Max' r) p\<rparr>"

definition In :: "Point \<Rightarrow> Rectangle \<Rightarrow> bool" where
  "In p r \<longleftrightarrow> X (Min' r) \<le> X p \<and> X p < X (Max' r) \<and> Y (Min' r) \<le> Y p \<and> Y p < Y (Max' r)"

text \<open>\<^verbatim>\<open>image.NewRGBA(r)\<close>: a buffer with bounds \<open>r\<close>, every channel 0.\<close>

definition blank :: rgba where
  "blank = (0, 0, 0, 0)"

definition NewRGBA :: "Rectangle \<Rightarrow> Image" where
  "NewRGBA r = \<lparr>Bounds = r, At = (\<lambda>p. blank)\<rparr>"

text \<open>
  \<^verbatim>\<open>draw.Draw(dst, r, src, sp, draw.Src)\<close>: \<open>r\<close> is clipped to the bounds of \<open>dst\<close> and
  to the bounds of \<open>src\<close> moved so that \<open>sp\<close> lies on \<open>r.Min\<close>; \<open>sp\<close> moves with the
  corner of \<open>r\<close>; every point of the clipped \<open>r\<close> then takes the colour of the source
  point aligned with it, and no other point of \<open>dst\<close> changes. Nothing is returned
  besides the changed \<open>dst\<close>: \<^verbatim>\<open>draw.Draw\<close> has no error result.
\<close>

definition Draw :: "Image \<Rightarrow> Rectangle \<Rightarrow> Image \<Rightarrow> Point \<Rightarrow> Image" where
  "Draw dst r src sp =
     (let orig = Min' r;
          r1 = Intersect r (Bounds dst);
          r2 = Intersect r1 (Add (Bounds src) (Sub orig sp));
          sp' = AddPoint sp (Sub (Min' r2) orig)
      in if Empty r2 then dst
         else dst\<lparr>At := (\<lambda>p. if In p r2 then At src (AddPoint sp' (Sub p (Min' r2))) else At dst p)\<rparr>)"

text \<open>The crop of the first \<^verbatim>\<open>main\<close> (the version that has the lossy detector).\<close>

definition cropTile :: "Image \<Rightarrow> int \<Rightarrow> int \<Rightarrow> int \<Rightarrow> int \<Rightarrow> Image" where
  "cropTile img rowPeriodicity colPeriodicity offsetX offsetY =
     (let tileWidth = rowPeriodicity;
          tileHeight = colPeriodicity;
          targetImage = NewRGBA (Rect 0 0 tileWidth tileHeight);
          srcRect = Rect offsetX offsetY (offsetX + tileWidth) (offsetY + tileHeight);
          dstRect = Bounds targetImage
      in Draw targetImage dstRect img (Min' srcRect))"

text \<open>
  The crop of the second \<^verbatim>\<open>main\<close> (the lossless-only version): the source rectangle is
  \<^verbatim>\<open>image.Rect(offsetX, offsetY, tileWidth, tileHeight)\<close>.
\<close>

definition cropTileLossless :: "Image \<Rightarrow> int \<Rightarrow> int \<Rightarrow> int \<Rightarrow> int \<Rightarrow> Image" where
  "cropTileLossless img rowPeriodicity colPeriodicity offsetX offsetY =
     (let tileWidth = rowPeriodicity;
          tileHeight = colPeriodicity;
          targetImage = NewRGBA (Rect 0 0 tileWidth tileHeight);
          srcRect = Rect offsetX offsetY tileWidth tileHeight;
          dstRect = Bounds targetImage
      in Draw targetImage dstRect img (Min' srcRect))"

section \<open>Line sampler\<close>

text \<open>
  \<^verbatim>\<open>r, g, b, _ := img.At(x, rowIdx).RGBA()\<close>: the method \<^verbatim>\<open>RGBA\<close> widens each 8-bit
  channel of the pixel to 16 bits (\<^verbatim>\<open>r = uint32(c.R); r |= r << 8\<close>); the alpha is dropped.
\<close>

definition widen :: "8 word \<Rightarrow> 32 word" where
  "widen c = ucast c OR push_bit 8 (ucast c)"

definition RGBA :: "rgba \<Rightarrow> Color" where
  "RGBA c = (case c of (r, g, b, a) \<Rightarrow> \<lparr>R = widen r, G = widen g, B = widen b\<rparr>)"

text \<open>
  The lines that \<^verbatim>\<open>processRow\<close> and \<^verbatim>\<open>processCol\<close> build: \<^verbatim>\<open>bounds.Max.X\<close> colours
  of the row, from \<open>x = 0\<close>, and \<^verbatim>\<open>bounds.Max.Y\<close> colours of the column, from \<open>y = 0\<close>.
\<close>

definition rowColors :: "Image \<Rightarrow> int \<Rightarrow> Color list" where
  "rowColors img rowIdx =
     map (\<lambda>x. RGBA (At img \<lparr>X = int x, Y = rowIdx\<rparr>)) [0..<nat (X (Max' (Bounds img)))]"

definition colColors :: "Image \<Rightarrow> int \<Rightarrow> Color list" where
  "colColors img colIdx =
     map (\<lambda>y. RGBA (At img \<lparr>X = colIdx, Y = int y\<rparr>)) [0..<nat (Y (Max' (Bounds img)))]"

section \<open>Inputs of the examples\<close>

text \<open>A 4 by 4 source image for the examples: the pixel at \<open>(x, y)\<close> is \<open>(x, y, 0, 255)\<close>.\<close>

definition sample4 :: Image where
  "sample4 = \<lparr>Bounds = Rect 0 0 4 4, At = (\<lambda>p. (word_of_int (X p), word_of_int (Y p), 0, 255))\<rparr>"

text \<open>
  A 6 by 2 image of vertical stripes, one pixel wide: black where \<open>x\<close> is even, white
  where it is odd.
\<close>

definition stripes6 :: Image where
  "stripes6 =
     \<lparr>Bounds = Rect 0 0 6 2,
      At = (\<lambda>p. if even (X p) then (0, 0, 0, 255) else (255, 255, 255, 255))\<rparr>"

text \<open>
  An 8 by 3 image whose rows have the periods 7, 6 and 5: the red channel of the pixel
  at \<open>(x, y)\<close> is \<open>x mod (7 - y)\<close>.
\<close>

definition rows765 :: Image where
  "rows765 =
     \<lparr>Bounds = Rect 0 0 8 3,
      At = (\<lambda>p. (word_of_int (X p mod (7 - Y p)), 0, 0, 255))\<rparr>"

text \<open>
  A line of \<open>2 * m\<close> pixels that alternates black and white, with the 16-bit channels
  that \<^verbatim>\<open>RGBA\<close> gives.
\<close>

definition alternating :: "nat \<Rightarrow> Color list" where
  "alternating m =
     concat (replicate m [\<lparr>R = 0, G = 0, B = 0\<rparr>, \<lparr>R = 0xFFFF, G = 0xFFFF, B = 0xFFFF\<rparr>])"

section \<open>Notions of the specification\<close>

text \<open>
  A border of a line is a proper prefix that is also a suffix; it is given by its length.
\<close>

definition is_border :: "'a list \<Rightarrow> nat \<Rightarrow> bool" where
  "is_border xs k \<longleftrightarrow> k < length xs \<and> take k xs = drop (length xs - k) xs"

definition longest_border :: "'a list \<Rightarrow> nat" where
  "longest_border xs =
     (case filter (is_border xs) (rev [0..<length xs]) of [] \<Rightarrow> 0 | k # ks \<Rightarrow> k)"

text \<open>
  A line is the block of its first \<open>d\<close> elements repeated; a block has a shorter
  internal period when it is a shorter block repeated.
\<close>

definition repeats :: "'a list \<Rightarrow> nat \<Rightarrow> bool" where
  "repeats xs d \<longleftrightarrow> d dvd length xs \<and> xs = concat (replicate (length xs div d) (take d xs))"

definition primitive_block :: "'a list \<Rightarrow> bool" where
  "primitive_block block \<longleftrightarrow> block \<noteq> [] \<and> list_all (\<lambda>d. \<not> repeats block d) [1..<length block]"

text \<open>The squared Euclidean distance of two colours, over the integers.\<close>

definition euclid2 :: "Color \<Rightarrow> Color \<Rightarrow> int" where
  "euclid2 x y =
     (uint (R x) - uint (R y))\<^sup>2 + (uint (G x) - uint (G y))\<^sup>2 + (uint (B x) - uint (B y))\<^sup>2"

text \<open>
  The total sum of the colour differences of a line at the shift \<open>k\<close>, over the
  integers: each \<open>ColorDiff\<close> as the \<^verbatim>\<open>int\<close> it returns, added without wrap-around.
\<close>

definition totalSum :: "Color list \<Rightarrow> nat \<Rightarrow> int" where
  "totalSum colors k =
     (\<Sum>i<length colors. sint (ColorDiff (colors ! ((i + k) mod length colors)) (colors ! i)))"

text \<open>
  A colour as the line sampler produces it: every channel is below \<open>2^16\<close>.
\<close>

definition sixteen_bit :: "Color \<Rightarrow> bool" where
  "sixteen_bit c \<longleftrightarrow> R c \<le> 0xFFFF \<and> G c \<le> 0xFFFF \<and> B c \<le> 0xFFFF"

text \<open>
  A line has the period \<open>q\<close> when every element equals the one \<open>q\<close> places on.
\<close>

definition has_period :: "'a list \<Rightarrow> nat \<Rightarrow> bool" where
  "has_period xs q \<longleftrightarrow> (\<forall>t. t + q < length xs \<longrightarrow> xs ! t = xs ! (t + q))"

section \<open>Invariants of the loops\<close>

text \<open>
  The lossless detector: the first \<open>i\<close> entries of \<open>prefixArray\<close> are the lengths of
  the longest borders of the prefixes of the line.
\<close>

definition filled :: "Color list \<Rightarrow> nat list \<Rightarrow> nat \<Rightarrow> bool" where
  "filled colors prefixArray i \<longleftrightarrow>
     length prefixArray = length colors
     \<and> (\<forall>k<i. prefixArray ! k = longest_border (take (Suc k) colors))"

text \<open>
  The lossy detector: among the shifts from 1 up to \<open>k\<close> (excluded), \<open>m\<close> has the
  least sum and is the first to have it. The sum is the 64-bit one, read as signed.
\<close>

definition best_shift :: "Color list \<Rightarrow> nat \<Rightarrow> nat \<Rightarrow> bool" where
  "best_shift colors k m \<longleftrightarrow> 1 \<le> m \<and> m < k
     \<and> (\<forall>k'. 1 \<le> k' \<and> k' < k \<longrightarrow> sint (shiftSum colors m) \<le> sint (shiftSum colors k'))
     \<and> (\<forall>k'. 1 \<le> k' \<and> k' < m \<longrightarrow> sint (shiftSum colors m) < sint (shiftSum colors k'))"

section \<open>Results: the float64 arithmetic\<close>

text \<open>
  The rounding is the one of binary64: \<open>exponent\<close> is the binary exponent, the
  rounded number is a multiple of the step of its binade with a mantissa of at most 53
  bits, and it lies within half a step of the exact number; \<open>round_half_even\<close> takes
  the even mantissa at a tie.
\<close>

lemma ilog2_bounds:
  "0 < n \<Longrightarrow> 2 ^ ilog2 n \<le> n \<and> n < 2 ^ Suc (ilog2 n)"
proof (induction n rule: ilog2.induct)
  case (1 n)
  show ?case
  proof (cases "n < 2")
    case True
    with "1.prems" have "n = 1" by simp
    then show ?thesis by (simp add: ilog2.simps)
  next
    case False
    then have step: "ilog2 n = Suc (ilog2 (n div 2))" by (subst ilog2.simps) simp
    from False have "0 < n div 2" by simp
    with "1.IH" False have "2 ^ ilog2 (n div 2) \<le> n div 2" "n div 2 < 2 ^ Suc (ilog2 (n div 2))"
      by simp_all
    then show ?thesis unfolding step by simp linarith
  qed
qed

lemma pow2_add1: "pow2 (e + 1) = 2 * pow2 e"
proof -
  consider "0 \<le> e" | "e = - 1" | "e < - 1" by linarith
  then show ?thesis
  proof cases
    case 1
    then show ?thesis by (simp add: pow2_def nat_add_distrib)
  next
    case 2
    then show ?thesis by (simp add: pow2_def)
  next
    case 3
    then have "nat (- e) = Suc (nat (- (e + 1)))" by simp
    with 3 show ?thesis by (simp add: pow2_def)
  qed
qed

lemma pow2_neg: "pow2 (- int n) = 1 / 2 ^ n"
proof (cases n)
  case 0
  then show ?thesis by (simp add: pow2_def)
next
  case (Suc m)
  then have "\<not> 0 \<le> - int n" "nat (- (- int n)) = n" by simp_all
  then show ?thesis by (simp only: pow2_def if_False)
qed

lemma pow2_pos: "0 < pow2 e"
  by (simp add: pow2_def)

lemma exponent_bounds:
  assumes "0 < x"
  shows "pow2 (exponent x) \<le> x \<and> x < pow2 (exponent x + 1)"
proof (cases "1 \<le> x")
  case True
  let ?n = "nat \<lfloor>x\<rfloor>"
  from True have n: "0 < ?n" by simp
  from True have e: "exponent x = int (ilog2 ?n)" by (simp add: exponent_def)
  from ilog2_bounds [OF n] have lo: "2 ^ ilog2 ?n \<le> ?n" and hi: "?n < 2 ^ Suc (ilog2 ?n)"
    by simp_all
  from lo have "real (2 ^ ilog2 ?n) \<le> real ?n" by (simp only: of_nat_le_iff)
  also from True have "real ?n \<le> x" by simp
  finally have 1: "2 ^ ilog2 ?n \<le> x" by simp
  from hi have "int ?n + 1 \<le> 2 ^ Suc (ilog2 ?n)"
    by (metis of_nat_less_iff of_nat_numeral of_nat_power zless_imp_add1_zle)
  with True have "\<lfloor>x\<rfloor> + 1 \<le> 2 ^ Suc (ilog2 ?n)" by simp
  then have "real_of_int (\<lfloor>x\<rfloor> + 1) \<le> real_of_int (2 ^ Suc (ilog2 ?n))" by (simp only: of_int_le_iff)
  moreover have "x < real_of_int (\<lfloor>x\<rfloor> + 1)" by linarith
  ultimately have "x < real_of_int (2 ^ Suc (ilog2 ?n))" by (rule less_le_trans [rotated])
  then have 2: "x < 2 ^ Suc (ilog2 ?n)" by simp
  from 1 2 show ?thesis
    unfolding e by (simp add: pow2_def nat_add_distrib)
next
  case False
  let ?y = "1 / x"
  let ?c = "nat \<lceil>?y\<rceil>"
  let ?k = "ilog2 (?c - 1)"
  from False assms have y1: "1 < ?y" by simp
  then have c2: "2 \<le> \<lceil>?y\<rceil>" by linarith
  then have c: "0 < ?c - 1" by simp
  from False have e: "exponent x = - int (Suc ?k)" by (simp add: exponent_def)
  from ilog2_bounds [OF c] have lo: "2 ^ ?k \<le> ?c - 1" and hi: "?c - 1 < 2 ^ Suc ?k"
    by simp_all
  \<comment> \<open>\<open>y \<le> 2 ^ Suc k\<close>\<close>
  from hi have "?c \<le> 2 ^ Suc ?k" by linarith
  then have "real ?c \<le> real (2 ^ Suc ?k)" by (simp only: of_nat_le_iff)
  moreover from c2 have "?y \<le> real ?c" by (simp add: of_nat_nat le_of_int_ceiling)
  ultimately have "?y \<le> real (2 ^ Suc ?k)" by (rule order_trans [rotated])
  then have up: "?y \<le> 2 ^ Suc ?k" by simp
  \<comment> \<open>\<open>2 ^ k < y\<close>\<close>
  from lo c have "int (2 ^ ?k) \<le> int ?c - 1" by linarith
  with c2 have "2 ^ ?k \<le> \<lceil>?y\<rceil> - 1" by simp
  then have "real_of_int (2 ^ ?k) \<le> real_of_int (\<lceil>?y\<rceil> - 1)" by (simp only: of_int_le_iff)
  moreover have "real_of_int (\<lceil>?y\<rceil> - 1) < ?y" by linarith
  ultimately have "real_of_int (2 ^ ?k) < ?y" by (rule le_less_trans)
  then have dn: "2 ^ ?k < ?y" by simp
  from up assms have 1: "1 / 2 ^ Suc ?k \<le> x"
    by (simp add: field_simps)
  from dn assms have 2: "x < 1 / 2 ^ ?k"
    by (simp add: field_simps)
  have p1: "pow2 (- int (Suc ?k)) = 1 / 2 ^ Suc ?k" by (rule pow2_neg)
  have "- int (Suc ?k) + 1 = - int ?k" by simp
  then have p2: "pow2 (- int (Suc ?k) + 1) = 1 / 2 ^ ?k" by (simp only: pow2_neg)
  from 1 2 show ?thesis unfolding e p1 p2 by simp
qed

lemma round_half_even_nearest: "\<bar>real_of_int (round_half_even x) - x\<bar> \<le> 1 / 2"
proof -
  let ?f = "\<lfloor>x\<rfloor>"
  let ?r = "x - of_int ?f"
  have r: "0 \<le> ?r" "?r < 1" by linarith+
  consider "?r < 1 / 2" | "1 / 2 < ?r" | "?r = 1 / 2" by linarith
  then show ?thesis
  proof cases
    case 1
    then have "round_half_even x = ?f" by (simp add: round_half_even_def Let_def)
    with 1 r show ?thesis by simp
  next
    case 2
    then have "round_half_even x = ?f + 1" by (simp add: round_half_even_def Let_def)
    with 2 r show ?thesis by simp
  next
    case 3
    then have "round_half_even x = ?f \<or> round_half_even x = ?f + 1"
      by (simp add: round_half_even_def Let_def)
    with 3 show ?thesis by auto
  qed
qed

lemma round64_nearest:
  assumes "x \<noteq> 0"
  defines "q \<equiv> pow2 (max (exponent \<bar>x\<bar> - 52) (- 1074))"
  shows "round64 x = sgn x * real_of_int (round_half_even (\<bar>x\<bar> / q)) * q"
    and "\<bar>round64 x - x\<bar> \<le> q / 2"
proof -
  have q: "0 < q" unfolding q_def by (rule pow2_pos)
  let ?m = "round_half_even (\<bar>x\<bar> / q)"
  from assms(1) show r: "round64 x = sgn x * real_of_int ?m * q"
    by (simp add: round64_def Let_def q_def)
  have "\<bar>real_of_int ?m - \<bar>x\<bar> / q\<bar> \<le> 1 / 2" by (rule round_half_even_nearest)
  with q have "\<bar>real_of_int ?m - \<bar>x\<bar> / q\<bar> * q \<le> 1 / 2 * q"
    by (intro mult_right_mono) simp_all
  moreover have "\<bar>real_of_int ?m - \<bar>x\<bar> / q\<bar> * q = \<bar>real_of_int ?m * q - \<bar>x\<bar>\<bar>"
  proof -
    from q have "\<bar>real_of_int ?m - \<bar>x\<bar> / q\<bar> * q = \<bar>real_of_int ?m - \<bar>x\<bar> / q\<bar> * \<bar>q\<bar>"
      by simp
    also have "\<dots> = \<bar>(real_of_int ?m - \<bar>x\<bar> / q) * q\<bar>" by (simp only: abs_mult)
    also from q have "(real_of_int ?m - \<bar>x\<bar> / q) * q = real_of_int ?m * q - \<bar>x\<bar>"
      by (simp add: left_diff_distrib)
    finally show ?thesis .
  qed
  ultimately have m: "\<bar>real_of_int ?m * q - \<bar>x\<bar>\<bar> \<le> q / 2" by simp
  have "round64 x - x = sgn x * (real_of_int ?m * q - \<bar>x\<bar>)"
    unfolding r by (simp add: right_diff_distrib mult.assoc sgn_mult_abs)
  then have "\<bar>round64 x - x\<bar> = \<bar>real_of_int ?m * q - \<bar>x\<bar>\<bar>"
    using assms(1) by (simp add: abs_mult abs_sgn_eq)
  with m show "\<bar>round64 x - x\<bar> \<le> q / 2" by simp
qed

lemma pow2_add_nat: "pow2 (e + int n) = pow2 e * 2 ^ n"
proof (induction n)
  case 0
  show ?case by simp
next
  case (Suc n)
  have "e + int (Suc n) = e + int n + 1" by simp
  then have "pow2 (e + int (Suc n)) = pow2 (e + int n + 1)" by (rule arg_cong)
  also have "\<dots> = 2 * pow2 (e + int n)" by (rule pow2_add1)
  finally show ?case by (simp add: Suc.IH)
qed

lemma pow2_mono:
  assumes "a \<le> b"
  shows "pow2 a \<le> pow2 b"
proof -
  from assms have "b = a + int (nat (b - a))" by simp
  then have "pow2 b = pow2 a * 2 ^ nat (b - a)" by (metis pow2_add_nat)
  moreover have "(1::real) \<le> 2 ^ nat (b - a)" by simp
  ultimately show ?thesis using pow2_pos [of a] by (simp add: mult_le_cancel_left1)
qed

lemma round_half_even_le:
  assumes "x < real_of_int n"
  shows "round_half_even x \<le> n"
proof -
  from assms have "\<lfloor>x\<rfloor> < n" by linarith
  then have "\<lfloor>x\<rfloor> + 1 \<le> n" by simp
  moreover have "round_half_even x \<le> \<lfloor>x\<rfloor> + 1"
    by (simp add: round_half_even_def Let_def)
  ultimately show ?thesis by simp
qed

lemma round_half_even_nonneg: "0 \<le> x \<Longrightarrow> 0 \<le> round_half_even x"
  by (simp add: round_half_even_def Let_def)

text \<open>The mantissa of a rounded number has at most 53 bits.\<close>

lemma round64_mantissa:
  assumes "x \<noteq> 0"
  defines "q \<equiv> pow2 (max (exponent \<bar>x\<bar> - 52) (- 1074))"
  shows "0 \<le> round_half_even (\<bar>x\<bar> / q)" and "round_half_even (\<bar>x\<bar> / q) \<le> 2 ^ 53"
proof -
  let ?e = "exponent \<bar>x\<bar>"
  have q: "0 < q" unfolding q_def by (rule pow2_pos)
  then show "0 \<le> round_half_even (\<bar>x\<bar> / q)"
    by (intro round_half_even_nonneg) simp
  from assms(1) have "\<bar>x\<bar> < pow2 (?e + 1)"
    using exponent_bounds [of "\<bar>x\<bar>"] by simp
  also have "?e + 1 = (?e - 52) + int 53" by simp
  also have "pow2 (?e - 52 + int 53) = pow2 (?e - 52) * 2 ^ 53" by (rule pow2_add_nat)
  also have "\<dots> \<le> q * 2 ^ 53"
    unfolding q_def by (intro mult_right_mono pow2_mono) simp_all
  finally have "\<bar>x\<bar> < q * 2 ^ 53" .
  with q have "\<bar>x\<bar> / q < 2 ^ 53" by (simp add: pos_divide_less_eq mult.commute)
  then have "\<bar>x\<bar> / q < real_of_int (2 ^ 53)" by simp
  then show "round_half_even (\<bar>x\<bar> / q) \<le> 2 ^ 53" by (rule round_half_even_le)
qed

section \<open>Results: the colour distance\<close>

text \<open>
  C5, at the colours (0,0,0) and (1,0,0): the red difference \<open>0 - 1\<close> wraps to
  \<open>2^32 - 1\<close> before it is converted, and its square wraps again in 64 bits. The result
  is negative, while the squared Euclidean distance is 1.
\<close>

theorem ColorDiff_wraps:
  "sint (ColorDiff \<lparr>R = 0, G = 0, B = 0\<rparr> \<lparr>R = 1, G = 0, B = 0\<rparr>) = - 8589934591
   \<and> euclid2 \<lparr>R = 0, G = 0, B = 0\<rparr> \<lparr>R = 1, G = 0, B = 0\<rparr> = 1"
  by (simp add: euclid2_def) code_simp

text \<open>
  The defect is confined to a channel of \<open>x\<close> that is smaller than that of \<open>y\<close>:
  where no channel of \<open>x\<close> is smaller and the channels are 16-bit values, \<open>ColorDiff\<close>
  is the squared Euclidean distance.
\<close>

lemma channel_difference:
  fixes a b :: "32 word"
  assumes "b \<le> a" "a \<le> 0xFFFF"
  shows "uint (ucast (a - b) :: 64 word) = uint a - uint b"
    and "0 \<le> uint a - uint b" and "(uint a - uint b)\<^sup>2 < 2 ^ 32"
proof -
  from assms(1) have d: "uint (a - b) = uint a - uint b"
    by (simp add: uint_sub_if' word_le_def)
  from assms(2) have a: "uint a \<le> 65535" by (simp add: word_le_def)
  have b0: "0 \<le> uint b" by simp
  from assms(1) have ba: "uint b \<le> uint a" by (simp add: word_le_def)
  let ?d = "uint a - uint b"
  from a b0 ba have r: "0 \<le> ?d" "?d \<le> 65535" by linarith+
  then show "0 \<le> ?d" by simp
  from r have "?d * ?d \<le> 65535 * 65535" by (intro mult_mono) simp_all
  then show "?d\<^sup>2 < 2 ^ 32" by (simp add: power2_eq_square)
  show "uint (ucast (a - b) :: 64 word) = ?d"
    by (simp add: uint_up_ucast is_up d)
qed

lemma ColorDiff_exact_if_no_channel_smaller:
  assumes "R y \<le> R x" "G y \<le> G x" "B y \<le> B x"
    and "R x \<le> 0xFFFF" "G x \<le> 0xFFFF" "B x \<le> 0xFFFF"
  shows "sint (ColorDiff x y) = euclid2 x y"
proof -
  note r = channel_difference [OF assms(1,4)]
  note g = channel_difference [OF assms(2,5)]
  note b = channel_difference [OF assms(3,6)]
  let ?s = "euclid2 x y"
  have nonneg: "0 \<le> ?s" by (simp add: euclid2_def)
  from r(3) g(3) b(3) have small: "?s < 2 ^ 63" by (simp add: euclid2_def)
  have "uint (ColorDiff x y) = ?s mod 2 ^ 64"
    unfolding ColorDiff_def Let_def euclid2_def
    by (simp add: uint_word_ariths r(1) g(1) b(1) mod_simps power2_eq_square)
  also from nonneg small have "\<dots> = ?s" by (intro mod_pos_pos_trivial) simp_all
  finally have u: "uint (ColorDiff x y) = ?s" .
  have "sint (ColorDiff x y) = signed_take_bit 63 (uint (ColorDiff x y))"
    by (simp add: sint_uint)
  also have "\<dots> = signed_take_bit 63 ?s" by (simp only: u)
  also from nonneg small have "\<dots> = ?s"
    by (intro signed_take_bit_int_eq_self) simp_all
  finally show ?thesis .
qed

section \<open>Results: degenerate lines\<close>

text \<open>
  C4, at the empty line: the lossless detector reads \<open>prefixArray[n - 1]\<close> with
  \<open>n = 0\<close> and panics with an index out of range, where the claim has it return a
  sentinel.
\<close>

theorem ArrayPeriodicityPNG_empty_panics:
  "ArrayPeriodicityPNG [] = Some (Inl IndexOutOfRange)"
  by (simp add: ArrayPeriodicityPNG_def prefixLoop.simps)

text \<open>The other degenerate cases do return 1, and the lossy detector never indexes an empty line.\<close>

lemma degenerate_lines_return_1:
  "ArrayPeriodicityPNG [c] = Some (Inr 1)"
  "ArrayPeriodicityJPGPlus [] = 1"
  "ArrayPeriodicityJPGPlus [c] = 1"
  by (simp_all add: ArrayPeriodicityPNG_def prefixLoop.simps ArrayPeriodicityJPGPlus_def
      shiftLoop.simps)

section \<open>Results: the frequency aggregator\<close>

lemma fold_increment:
  "fold (\<lambda>num frequencyMap. increment frequencyMap num) arr m k =
     (if k \<in> set arr
      then Some ((case m k of None \<Rightarrow> 0 | Some freq \<Rightarrow> freq) + int (count_list arr k))
      else m k)"
proof (induction arr arbitrary: m)
  case Nil
  show ?case by simp
next
  case (Cons a arr)
  show ?case
    by (simp add: Cons.IH) (auto simp: increment_def split: option.splits)
qed

lemma tally_count:
  "tally arr k = (if k \<in> set arr then Some (int (count_list arr k)) else None)"
  by (simp add: tally_def fold_increment)

lemma collect_tally:
  "set order \<subseteq> set arr \<Longrightarrow>
   collect (tally arr) order (pairs, tot) =
     (pairs @ map (\<lambda>num. (num, int (count_list arr num))) order,
      tot + (\<Sum>num\<leftarrow>order. int (count_list arr num)))"
proof (induction order arbitrary: pairs tot)
  case Nil
  show ?case by simp
next
  case (Cons a order)
  then have "tally arr a = Some (int (count_list arr a))" and "set order \<subseteq> set arr"
    by (simp_all add: tally_count)
  with Cons.IH show ?case by simp
qed

lemma frequencyPairs_eq:
  assumes "set order \<subseteq> set arr"
  shows "frequencyPairs order arr preferFrequency =
     (sortSlice (if preferFrequency then 1 else 0) (map (\<lambda>num. (num, int (count_list arr num))) order),
      (\<Sum>num\<leftarrow>order. int (count_list arr num)))"
  using collect_tally [OF assms, of "[]" 0] by (simp add: frequencyPairs_def)

lemma mset_sortSlice: "mset (sortSlice pairChoice pairs) = mset pairs"
  by (simp add: sortSlice_def)

lemma set_sortSlice: "set (sortSlice pairChoice pairs) = set pairs"
  by (simp add: sortSlice_def)

lemma sum_counts:
  assumes "distinct order" "set order = set arr"
  shows "(\<Sum>num\<leftarrow>order. int (count_list arr num)) = int (length arr)"
proof -
  have "(\<Sum>num\<leftarrow>order. int (count_list arr num)) = (\<Sum>num\<in>set order. int (count_list arr num))"
    using assms(1) by (simp add: sum_list_distinct_conv_sum_set)
  also have "\<dots> = int (\<Sum>num\<in>set arr. count_list arr num)"
    by (simp add: assms(2))
  also have "\<dots> = int (length arr)"
    by (simp add: sum_count_set)
  finally show ?thesis .
qed

text \<open>
  C7: whatever the order in which the map is ranged over, the pairs returned hold every
  period that occurs among the lines exactly once; the count of a pair is the number
  of lines with that period, which is at least 1; the counts add up to the number of
  lines, and so does the total returned.
\<close>

theorem frequencyPairs_partition:
  assumes "range_order order arr"
  shows "distinct (map fst (fst (frequencyPairs order arr preferFrequency)))
    \<and> set (map fst (fst (frequencyPairs order arr preferFrequency))) = set arr
    \<and> (\<forall>pair \<in> set (fst (frequencyPairs order arr preferFrequency)).
          1 \<le> snd pair \<and> snd pair = int (count_list arr (fst pair)))
    \<and> sum_list (map snd (fst (frequencyPairs order arr preferFrequency))) = int (length arr)
    \<and> snd (frequencyPairs order arr preferFrequency) = int (length arr)"
proof -
  let ?c = "if preferFrequency then 1 else 0 :: nat"
  let ?ps = "map (\<lambda>num. (num, int (count_list arr num))) order"
  from assms have d: "distinct order" and s: "set order = set arr"
    by (simp_all add: range_order_def)
  have fp: "frequencyPairs order arr preferFrequency = (sortSlice ?c ?ps, int (length arr))"
    using frequencyPairs_eq [of order arr preferFrequency] s sum_counts [OF d s] by simp
  have m: "mset (map fst (sortSlice ?c ?ps)) = mset order"
  proof -
    have "mset (map fst (sortSlice ?c ?ps)) = image_mset fst (mset (sortSlice ?c ?ps))" by simp
    also have "\<dots> = image_mset fst (mset ?ps)" by (simp only: mset_sortSlice)
    also have "\<dots> = mset (map fst ?ps)" by (simp only: mset_map)
    also have "map fst ?ps = order" by (simp add: comp_def)
    finally show ?thesis .
  qed
  have 1: "distinct (map fst (sortSlice ?c ?ps))"
    using m d by (metis mset_eq_imp_distinct_iff)
  have 2: "set (map fst (sortSlice ?c ?ps)) = set arr"
    using m s by (metis mset_eq_setD)
  have 3: "1 \<le> snd pair \<and> snd pair = int (count_list arr (fst pair))"
    if "pair \<in> set (sortSlice ?c ?ps)" for pair
  proof -
    from that have "pair \<in> set ?ps" by (simp only: set_sortSlice)
    then obtain num where "num \<in> set order" "pair = (num, int (count_list arr num))" by auto
    moreover from this s have "count_list arr num \<noteq> 0" by (simp add: count_list_0_iff)
    ultimately show ?thesis by simp
  qed
  have "mset (map snd (sortSlice ?c ?ps)) = mset (map snd ?ps)"
    by (simp only: mset_map mset_sortSlice)
  then have "sum_list (map snd (sortSlice ?c ?ps)) = sum_list (map snd ?ps)"
    by (metis sum_mset_sum_list)
  also have "\<dots> = (\<Sum>num\<leftarrow>order. int (count_list arr num))" by (simp add: comp_def)
  also have "\<dots> = int (length arr)" by (rule sum_counts [OF d s])
  finally have 4: "sum_list (map snd (sortSlice ?c ?ps)) = int (length arr)" .
  from 1 2 3 4 show ?thesis unfolding fp fst_conv snd_conv by blast
qed

theorem frequencyPairs_partition_witness:
  "range_order [4, 7] [4, 7, 7]
   \<and> fst (frequencyPairs [4, 7] [4, 7, 7] False) = [(7, 2), (4, 1)]
   \<and> snd (frequencyPairs [4, 7] [4, 7, 7] False) = 3"
  using frequencyPairs_partition [of "[4, 7]" "[4, 7, 7]" False]
  by (simp add: range_order_def frequencyPairs_eq sortSlice_def component_def)

text \<open>
  The model loses no behaviour of \<^verbatim>\<open>sort.Slice\<close>: a list that holds the pairs of the
  map and is sorted in descending order of the chosen component, in whatever order its
  equal keys stand, is what the model returns for one of the orders of the map.
\<close>

lemma every_sorted_outcome_is_modelled:
  assumes "range_order order arr"
    and "mset out = mset (map (\<lambda>num. (num, int (count_list arr num))) order)"
    and "sorted (map (\<lambda>pair. - component (if preferFrequency then 1 else 0) pair) out)"
  shows "range_order (map fst out) arr
    \<and> fst (frequencyPairs (map fst out) arr preferFrequency) = out"
proof -
  let ?cnt = "\<lambda>num. (num, int (count_list arr num))"
  from assms(1) have d: "distinct order" and s: "set order = set arr"
    by (simp_all add: range_order_def)
  have "mset (map fst out) = image_mset fst (mset (map ?cnt order))"
    by (simp only: mset_map assms(2))
  also have "\<dots> = mset (map fst (map ?cnt order))" by (simp only: mset_map)
  also have "map fst (map ?cnt order) = order" by (simp add: comp_def)
  finally have m: "mset (map fst out) = mset order" .
  then have ro: "range_order (map fst out) arr"
    using d s unfolding range_order_def
    by (metis mset_eq_imp_distinct_iff mset_eq_setD)
  have "set out = set (map ?cnt order)"
    using assms(2) by (rule mset_eq_setD)
  then have "\<forall>pair \<in> set out. ?cnt (fst pair) = pair" by auto
  then have id: "map ?cnt (map fst out) = out"
    by (simp add: map_idI comp_def)
  from ro have "set (map fst out) \<subseteq> set arr" by (simp add: range_order_def)
  from frequencyPairs_eq [OF this, of preferFrequency]
  have "fst (frequencyPairs (map fst out) arr preferFrequency)
      = sortSlice (if preferFrequency then 1 else 0) out"
    by (simp only: id fst_conv)
  also from assms(3) have "\<dots> = out"
    unfolding sortSlice_def by (rule sort_key_id_if_sorted)
  finally show ?thesis using ro by simp
qed

lemma count_list_replicate: "count_list (replicate n x) y = (if x = y then n else 0)"
  by (induction n) auto

section \<open>Results: the threshold selector\<close>

lemma scan_spec:
  "idx \<le> length pairs \<Longrightarrow>
   idx \<le> scan pairs thr idx \<and> scan pairs thr idx \<le> length pairs
   \<and> (\<forall>i. idx \<le> i \<and> i < scan pairs thr idx \<longrightarrow> snd (pairs ! i) < thr)
   \<and> (scan pairs thr idx < length pairs \<longrightarrow> \<not> snd (pairs ! scan pairs thr idx) < thr)"
proof (induction pairs thr idx rule: scan.induct)
  case (1 pairs thr idx)
  show ?case
  proof (cases "idx < length pairs \<and> snd (pairs ! idx) < thr")
    case True
    then have step: "scan pairs thr idx = scan pairs thr (idx + 1)"
      by (subst scan.simps) simp
    from True have "idx + 1 \<le> length pairs" by simp
    with "1.IH" True have ih:
      "idx + 1 \<le> scan pairs thr (idx + 1)" "scan pairs thr (idx + 1) \<le> length pairs"
      "\<forall>i. idx + 1 \<le> i \<and> i < scan pairs thr (idx + 1) \<longrightarrow> snd (pairs ! i) < thr"
      "scan pairs thr (idx + 1) < length pairs \<longrightarrow> \<not> snd (pairs ! scan pairs thr (idx + 1)) < thr"
      by blast+
    have "snd (pairs ! i) < thr" if "idx \<le> i" "i < scan pairs thr (idx + 1)" for i
    proof (cases "i = idx")
      case True
      with \<open>idx < length pairs \<and> snd (pairs ! idx) < thr\<close> show ?thesis by simp
    next
      case False
      with that have "idx + 1 \<le> i" by simp
      with ih(3) that show ?thesis by blast
    qed
    with ih step show ?thesis by simp
  next
    case False
    then have "scan pairs thr idx = idx"
      by (subst scan.simps) auto
    with False "1.prems" show ?thesis by auto
  qed
qed

text \<open>
  The rounding of \<^verbatim>\<open>float64\<close> shows in the threshold: of 100 lines, 29 percent are
  28 lines to the code, since \<open>29 / 100.0\<close> rounds to a number just below 0.29.
\<close>

lemma threshold_rounds:
  "threshold 100 (tolerance False 29) = Some 28"
  "threshold 100 (tolerance False 50) = Some 50"
  "threshold 100 (tolerance False 95) = Some 95"
  by code_simp+

text \<open>
  C6, at an image of 3 rows of 8 pixels whose rows have the periods 7, 6 and 5, with
  \<^verbatim>\<open>-row-tolerance 50\<close>: the pairs are \<open>[(7, 1), (6, 1), (5, 1)]\<close> out of 3 lines and the
  tolerance is 0.5. The first pair has the share 1/3, strictly below the tolerance, and
  the claim has it skipped; the code compares its count 1 with \<open>int(3 * 0.5) = 1\<close>,
  does not skip it, and selects period 7.
\<close>

theorem share_below_tolerance_not_skipped:
  "map (\<lambda>y. ArrayPeriodicityPNG (rowColors rows765 y)) [0, 1, 2]
     = [Some (Inr 7), Some (Inr 6), Some (Inr 5)]
   \<and> frequencyPairs [5, 6, 7] [7, 6, 5] False = ([(7, 1), (6, 1), (5, 1)], 3)
   \<and> tolerance False 50 = 1 / 2
   \<and> real_of_int (snd ([(7, 1), (6, 1), (5, 1)] ! 0)) / real_of_int 3 < tolerance False 50
   \<and> threshold 3 (tolerance False 50) = Some 1
   \<and> scan [(7, 1), (6, 1), (5, 1)] 1 0 = 0
   \<and> selectPeriod [(7, 1), (6, 1), (5, 1)] 3 (tolerance False 50) = Inr (7, percentage 1 3)"
proof -
  have a: "map (\<lambda>y. ArrayPeriodicityPNG (rowColors rows765 y)) [0, 1, 2]
     = [Some (Inr 7), Some (Inr 6), Some (Inr 5)]"
    by code_simp
  have b: "frequencyPairs [5, 6, 7] [7, 6, 5] False = ([(7, 1), (6, 1), (5, 1)], 3)"
    by (subst frequencyPairs_eq) (simp_all add: sortSlice_def component_def)
  have c: "tolerance False 50 = 1 / 2"
    by code_simp
  have d: "real_of_int (snd ([(7, 1), (6, 1), (5, 1)] ! 0)) / real_of_int 3 < tolerance False 50"
    unfolding c by simp
  have e: "threshold 3 (tolerance False 50) = Some 1"
    by code_simp
  have f: "scan [(7, 1), (6, 1), (5, 1)] 1 0 = 0"
    by (simp add: scan.simps)
  have g: "selectPeriod [(7, 1), (6, 1), (5, 1)] 3 (tolerance False 50) = Inr (7, percentage 1 3)"
    by (simp add: selectPeriod_def e f)
  from a b c d e f g show ?thesis by (intro conjI)
qed

text \<open>
  C2 as stated fails in its second half: without \<open>preferFrequency\<close> the pairs are
  sorted by period, so the top-ranked pair is \<open>(7, 10)\<close>; with the tolerance 0.95 no
  pair reaches the threshold 95 and the selector wraps around to period 7, with its
  share of 10 percent, not to period 4 with 90 percent.
\<close>

theorem wraparound_selects_period_7:
  "frequencyPairs [4, 7] (replicate 90 4 @ replicate 10 7) False = ([(7, 10), (4, 90)], 100)
   \<and> selectPeriod [(7, 10), (4, 90)] 100 (tolerance False 95) = Inr (7, 10)
   \<and> selectPeriod [(7, 10), (4, 90)] 100 (tolerance False 95) \<noteq> Inr (4, 90)"
proof -
  have a: "frequencyPairs [4, 7] (replicate 90 4 @ replicate 10 7) False = ([(7, 10), (4, 90)], 100)"
    by (subst frequencyPairs_eq) (simp_all add: count_list_replicate sortSlice_def component_def)
  have b: "selectPeriod [(7, 10), (4, 90)] 100 (tolerance False 95) = Inr (7, 10)"
    by code_simp
  have c: "selectPeriod [(7, 10), (4, 90)] 100 (tolerance False 95) \<noteq> Inr (4, 90)"
    unfolding b by simp
  from a b c show ?thesis by (intro conjI)
qed

text \<open>
  C2, amended: for 90 lines of period 4 and 10 lines of period 7, in whichever order the
  map is ranged over, the sorted pairs are \<open>[(7, 10), (4, 90)]\<close> out of 100 lines; with
  the tolerance 0.5 the selector skips \<open>(7, 10)\<close> and returns period 4 with 90 percent;
  with the tolerance 0.95 it wraps around to the top-ranked pair, period 7 with 10
  percent.
\<close>

theorem tolerance_selection_example:
  "frequencyPairs [4, 7] (replicate 90 4 @ replicate 10 7) False = ([(7, 10), (4, 90)], 100)
   \<and> frequencyPairs [7, 4] (replicate 90 4 @ replicate 10 7) False = ([(7, 10), (4, 90)], 100)
   \<and> sortSlice 0 [(4, 90), (7, 10)] = [(7, 10), (4, 90)]
   \<and> selectPeriod [(7, 10), (4, 90)] 100 (tolerance False 50) = Inr (4, 90)
   \<and> selectPeriod [(7, 10), (4, 90)] 100 (tolerance False 95) = Inr (7, 10)"
proof -
  have a: "frequencyPairs [4, 7] (replicate 90 4 @ replicate 10 7) False = ([(7, 10), (4, 90)], 100)"
    by (subst frequencyPairs_eq) (simp_all add: count_list_replicate sortSlice_def component_def)
  have b: "frequencyPairs [7, 4] (replicate 90 4 @ replicate 10 7) False = ([(7, 10), (4, 90)], 100)"
    by (subst frequencyPairs_eq) (simp_all add: count_list_replicate sortSlice_def component_def)
  have c: "sortSlice 0 [(4, 90), (7, 10)] = [(7, 10), (4, 90)]"
    by (simp add: sortSlice_def component_def)
  have d: "selectPeriod [(7, 10), (4, 90)] 100 (tolerance False 50) = Inr (4, 90)"
    by code_simp
  have e: "selectPeriod [(7, 10), (4, 90)] 100 (tolerance False 95) = Inr (7, 10)"
    by code_simp
  from a b c d e show ?thesis by (intro conjI)
qed

lemma round64_0: "round64 0 = 0"
  by (simp add: round64_def)

lemma threshold_zero: "threshold tot 0 = Some 0"
  by (simp add: threshold_def int_of_float64_def round64_0)

lemma sortSlice_hd_greatest:
  assumes "pairs \<noteq> []" "pair \<in> set pairs"
  shows "component pairChoice pair \<le> component pairChoice (hd (sortSlice pairChoice pairs))"
proof -
  let ?f = "\<lambda>pair. - component pairChoice pair"
  let ?s = "sort_key ?f pairs"
  from assms(1) have ne: "?s \<noteq> []" by (metis length_sort length_0_conv)
  have "sorted (map ?f ?s)" by (rule sorted_sort_key)
  moreover from ne have "map ?f ?s = ?f (hd ?s) # map ?f (tl ?s)"
    by (cases ?s) simp_all
  ultimately have le: "\<forall>y \<in> set (map ?f (tl ?s)). ?f (hd ?s) \<le> y"
    by (metis sorted_simps(2))
  from assms(2) have "pair \<in> set ?s" by simp
  with ne have "pair = hd ?s \<or> pair \<in> set (tl ?s)"
    by (cases ?s) auto
  then have "?f (hd ?s) \<le> ?f pair"
    using le by auto
  then show ?thesis by (simp add: sortSlice_def)
qed

text \<open>
  C8: with \<open>preferFrequency\<close> the tolerance is 0 whatever the flag says, and for at
  least one line the selector returns a period that no other period occurs more often
  than, with its share of the lines, whatever that share is.
\<close>

theorem preferFrequency_selects_most_frequent:
  assumes "range_order order arr" and "arr \<noteq> []"
  shows "tolerance True percent = 0
    \<and> (\<exists>period. selectPeriod (fst (frequencyPairs order arr True))
                    (snd (frequencyPairs order arr True)) (tolerance True percent)
                = Inr (period, percentage (int (count_list arr period)) (int (length arr)))
              \<and> period \<in> set arr
              \<and> (\<forall>num. count_list arr num \<le> count_list arr period))"
proof -
  let ?ps = "map (\<lambda>num. (num, int (count_list arr num))) order"
  let ?pairs = "sortSlice 1 ?ps"
  from assms have d: "distinct order" and s: "set order = set arr"
    by (simp_all add: range_order_def)
  have fp: "frequencyPairs order arr True = (?pairs, int (length arr))"
    using frequencyPairs_eq [of order arr True] s sum_counts [OF d s] by simp
  from s assms(2) have "order \<noteq> []" by auto
  then have psne: "?ps \<noteq> []" by simp
  then have ne: "?pairs \<noteq> []" by (metis mset_sortSlice mset_zero_iff)
  then have hd_in: "hd ?pairs \<in> set ?ps" by (metis hd_in_set set_sortSlice)
  then obtain period where p: "period \<in> set arr" "hd ?pairs = (period, int (count_list arr period))"
    using s by auto
  have max: "count_list arr num \<le> count_list arr period" for num
  proof (cases "num \<in> set arr")
    case True
    with s have "(num, int (count_list arr num)) \<in> set ?ps" by auto
    from sortSlice_hd_greatest [OF psne this, of 1] p(2) show ?thesis
      by (simp add: component_def)
  next
    case False
    then show ?thesis by (simp add: count_list_0_iff)
  qed
  have sel: "selectPeriod pairs tot 0 = Inr (fst (hd pairs), percentage (snd (hd pairs)) tot)"
    if "pairs \<noteq> []" "0 \<le> snd (hd pairs)" for pairs :: "(int \<times> int) list" and tot
  proof -
    from that have "\<not> snd (pairs ! 0) < 0" by (simp add: hd_conv_nth)
    then have "scan pairs 0 0 = 0" by (subst scan.simps) simp
    with that(1) show ?thesis
      by (simp add: selectPeriod_def threshold_zero hd_conv_nth Let_def)
  qed
  have "selectPeriod ?pairs (int (length arr)) 0
      = Inr (period, percentage (int (count_list arr period)) (int (length arr)))"
    using sel [OF ne, of "int (length arr)"] p(2) by simp
  with p(1) max show ?thesis
    unfolding fp fst_conv snd_conv by (auto simp: tolerance_def)
qed

theorem preferFrequency_selects_most_frequent_witness:
  "range_order [4, 7] [4, 7, 7] \<and> [4, 7, 7] \<noteq> ([] :: int list)
   \<and> tolerance True 40 = 0
   \<and> fst (frequencyPairs [4, 7] [4, 7, 7] True) = [(7, 2), (4, 1)]"
  using preferFrequency_selects_most_frequent [of "[4, 7]" "[4, 7, 7]" 40]
  by (simp add: range_order_def frequencyPairs_eq sortSlice_def component_def)

section \<open>Results: the crop extractor\<close>

lemma Intersect_In:
  "In p (Intersect r s) \<longleftrightarrow> In p r \<and> In p s"
  by (auto simp: Intersect_def In_def Empty_def ZR_def Let_def)

lemma Empty_no_In: "Empty r \<Longrightarrow> \<not> In p r"
  by (auto simp: In_def Empty_def)

lemma Draw_At:
  "At (Draw dst r src sp) p =
     (if In p r \<and> In p (Bounds dst) \<and> In (AddPoint sp (Sub p (Min' r))) (Bounds src)
      then At src (AddPoint sp (Sub p (Min' r))) else At dst p)"
proof -
  let ?r1 = "Intersect r (Bounds dst)"
  let ?r2 = "Intersect ?r1 (Add (Bounds src) (Sub (Min' r) sp))"
  have shift: "In p (Add (Bounds src) (Sub (Min' r) sp)) \<longleftrightarrow> In (AddPoint sp (Sub p (Min' r))) (Bounds src)"
    by (auto simp: In_def Add_def Sub_def AddPoint_def)
  have in2: "In p ?r2 \<longleftrightarrow> In p r \<and> In p (Bounds dst) \<and> In (AddPoint sp (Sub p (Min' r))) (Bounds src)"
    by (simp add: Intersect_In shift)
  have pt: "AddPoint (AddPoint sp (Sub (Min' ?r2) (Min' r))) (Sub p (Min' ?r2)) = AddPoint sp (Sub p (Min' r))"
    by (simp add: AddPoint_def Sub_def)
  show ?thesis
  proof (cases "Empty ?r2")
    case True
    then have "\<not> In p ?r2" by (rule Empty_no_In)
    then have "\<not> (In p r \<and> In p (Bounds dst) \<and> In (AddPoint sp (Sub p (Min' r))) (Bounds src))"
      unfolding in2 .
    with True show ?thesis by (auto simp: Draw_def Let_def)
  next
    case False
    then show ?thesis
      unfolding in2 [symmetric] by (simp add: Draw_def Let_def pt)
  qed
qed

lemma Draw_Bounds: "Bounds (Draw dst r src sp) = Bounds dst"
  by (simp add: Draw_def Let_def)

text \<open>
  C3 as stated fails: the crop of a 2 by 2 tile at the offsets (3, 3) of the 4 by 4
  image reaches to (5, 5), beyond the bounds. The extractor has no error to report: it
  returns a 2 by 2 image with the one pixel that lies inside the source copied and the
  three others left blank.
\<close>

theorem crop_beyond_bounds_is_partially_filled:
  "\<not> In \<lparr>X = 3 + 1, Y = 3 + 1\<rparr> (Bounds sample4)
   \<and> Bounds (cropTile sample4 2 2 3 3) = Rect 0 0 2 2
   \<and> At (cropTile sample4 2 2 3 3) \<lparr>X = 0, Y = 0\<rparr> = (3, 3, 0, 255)
   \<and> At (cropTile sample4 2 2 3 3) \<lparr>X = 1, Y = 0\<rparr> = blank
   \<and> At (cropTile sample4 2 2 3 3) \<lparr>X = 0, Y = 1\<rparr> = blank
   \<and> At (cropTile sample4 2 2 3 3) \<lparr>X = 1, Y = 1\<rparr> = blank"
  by code_simp

text \<open>
  C3, amended: for positive periods the extractor always returns an image, of the bounds
  \<open>(0, 0)\<close> to \<open>(rowPeriod, colPeriod)\<close>; the pixel at \<open>(x, y)\<close> of it is the source
  pixel at \<open>(offsetX + x, offsetY + y)\<close> when that point lies in the source bounds, and
  blank when it does not. A rectangle that exceeds the source is clipped, not refused.
\<close>

theorem cropTile_clips_to_source:
  assumes "0 < rowPeriodicity" and "0 < colPeriodicity"
  shows "Bounds (cropTile img rowPeriodicity colPeriodicity offsetX offsetY)
           = Rect 0 0 rowPeriodicity colPeriodicity
         \<and> At (cropTile img rowPeriodicity colPeriodicity offsetX offsetY) \<lparr>X = x, Y = y\<rparr>
           = (if 0 \<le> x \<and> x < rowPeriodicity \<and> 0 \<le> y \<and> y < colPeriodicity
                 \<and> In \<lparr>X = offsetX + x, Y = offsetY + y\<rparr> (Bounds img)
              then At img \<lparr>X = offsetX + x, Y = offsetY + y\<rparr> else blank)"
proof -
  from assms have r: "Rect 0 0 rowPeriodicity colPeriodicity
      = \<lparr>Min' = \<lparr>X = 0, Y = 0\<rparr>, Max' = \<lparr>X = rowPeriodicity, Y = colPeriodicity\<rparr>\<rparr>"
    and m: "Min' (Rect offsetX offsetY (offsetX + rowPeriodicity) (offsetY + colPeriodicity))
      = \<lparr>X = offsetX, Y = offsetY\<rparr>"
    by (simp_all add: Rect_def)
  show ?thesis
    unfolding cropTile_def Let_def Draw_Bounds Draw_At m
    by (simp add: NewRGBA_def r In_def AddPoint_def Sub_def)
qed

theorem cropTile_clips_to_source_witness:
  "(0::int) < 2
   \<and> Bounds (cropTile sample4 2 2 3 3) = Rect 0 0 2 2
   \<and> At (cropTile sample4 2 2 3 3) \<lparr>X = 0, Y = 0\<rparr> = At sample4 \<lparr>X = 3, Y = 3\<rparr>
   \<and> At (cropTile sample4 2 2 3 3) \<lparr>X = 1, Y = 1\<rparr> = blank"
  using cropTile_clips_to_source [of 2 2 sample4 3 3 0 0]
    cropTile_clips_to_source [of 2 2 sample4 3 3 1 1]
  by (simp add: sample4_def Rect_def In_def)

text \<open>
  C10, at the 6 by 2 image of one-pixel stripes with \<^verbatim>\<open>-x-offset 3\<close> and the other
  flags at their defaults: every row has the period 2 and every column the period 1,
  so both versions select a tile of 2 by 1. The first version copies from the source
  pixel (3, 0), which is white. The second builds \<open>image.Rect(3, 0, 2, 1)\<close>, whose
  horizontal coordinates come in the wrong order and are swapped, so that its minimum
  corner is (2, 0): it copies from the source pixel (2, 0), which is black.
\<close>

theorem crop_versions_differ:
  "map (\<lambda>y. ArrayPeriodicityPNG (rowColors stripes6 y)) [0, 1] = [Some (Inr 2), Some (Inr 2)]
   \<and> map (\<lambda>x. ArrayPeriodicityPNG (colColors stripes6 x)) [0, 1, 2, 3, 4, 5]
       = [Some (Inr 1), Some (Inr 1), Some (Inr 1), Some (Inr 1), Some (Inr 1), Some (Inr 1)]
   \<and> frequencyPairs [2] [2, 2] False = ([(2, 2)], 2)
   \<and> selectPeriod [(2, 2)] 2 (tolerance False (round64 (1 / 10))) = Inr (2, 100)
   \<and> frequencyPairs [1] [1, 1, 1, 1, 1, 1] False = ([(1, 6)], 6)
   \<and> selectPeriod [(1, 6)] 6 (tolerance False (round64 (1 / 10))) = Inr (1, 100)
   \<and> At (cropTile stripes6 2 1 3 0) \<lparr>X = 0, Y = 0\<rparr> = (255, 255, 255, 255)
   \<and> At (cropTileLossless stripes6 2 1 3 0) \<lparr>X = 0, Y = 0\<rparr> = (0, 0, 0, 255)
   \<and> cropTile stripes6 2 1 3 0 \<noteq> cropTileLossless stripes6 2 1 3 0"
proof -
  have r: "map (\<lambda>y. ArrayPeriodicityPNG (rowColors stripes6 y)) [0, 1]
      = [Some (Inr 2), Some (Inr 2)]"
    by code_simp
  have c: "map (\<lambda>x. ArrayPeriodicityPNG (colColors stripes6 x)) [0, 1, 2, 3, 4, 5]
       = [Some (Inr 1), Some (Inr 1), Some (Inr 1), Some (Inr 1), Some (Inr 1), Some (Inr 1)]"
    by code_simp
  have fr: "frequencyPairs [2] [2, 2] False = ([(2, 2)], 2)"
    by (subst frequencyPairs_eq) (simp_all add: sortSlice_def component_def)
  have sr: "selectPeriod [(2, 2)] 2 (tolerance False (round64 (1 / 10))) = Inr (2, 100)"
    by code_simp
  have fc: "frequencyPairs [1] [1, 1, 1, 1, 1, 1] False = ([(1, 6)], 6)"
    by (subst frequencyPairs_eq) (simp_all add: sortSlice_def component_def)
  have sc: "selectPeriod [(1, 6)] 6 (tolerance False (round64 (1 / 10))) = Inr (1, 100)"
    by code_simp
  have a: "At (cropTile stripes6 2 1 3 0) \<lparr>X = 0, Y = 0\<rparr> = (255, 255, 255, 255)"
    by code_simp
  have b: "At (cropTileLossless stripes6 2 1 3 0) \<lparr>X = 0, Y = 0\<rparr> = (0, 0, 0, 255)"
    by code_simp
  have d: "cropTile stripes6 2 1 3 0 \<noteq> cropTileLossless stripes6 2 1 3 0"
  proof
    assume "cropTile stripes6 2 1 3 0 = cropTileLossless stripes6 2 1 3 0"
    then have "At (cropTile stripes6 2 1 3 0) \<lparr>X = 0, Y = 0\<rparr>
      = At (cropTileLossless stripes6 2 1 3 0) \<lparr>X = 0, Y = 0\<rparr>" by (rule arg_cong)
    then show False unfolding a b by simp
  qed
  from r c fr sr fc sc a b d show ?thesis by (intro conjI)
qed

text \<open>
  The two versions agree as long as no offset exceeds the period of its axis: then
  \<^verbatim>\<open>image.Rect\<close> swaps nothing and both source rectangles have the corner
  \<open>(offsetX, offsetY)\<close>.
\<close>

lemma crop_versions_agree:
  assumes "0 < rowPeriodicity" "0 < colPeriodicity"
    and "offsetX \<le> rowPeriodicity" "offsetY \<le> colPeriodicity"
  shows "cropTileLossless img rowPeriodicity colPeriodicity offsetX offsetY
           = cropTile img rowPeriodicity colPeriodicity offsetX offsetY"
proof -
  from assms have "Min' (Rect offsetX offsetY rowPeriodicity colPeriodicity)
      = Min' (Rect offsetX offsetY (offsetX + rowPeriodicity) (offsetY + colPeriodicity))"
    by (simp add: Rect_def)
  then show ?thesis
    by (simp add: cropTileLossless_def cropTile_def Let_def)
qed

section \<open>Results: the lossless detector\<close>

subsection \<open>Borders\<close>

lemma is_border_nth:
  "is_border xs k \<longleftrightarrow> k < length xs \<and> (\<forall>t<k. xs ! t = xs ! (length xs - k + t))"
proof (cases "k < length xs")
  case False
  then show ?thesis by (simp add: is_border_def)
next
  case True
  then have "take k xs = drop (length xs - k) xs
      \<longleftrightarrow> (\<forall>t<k. take k xs ! t = drop (length xs - k) xs ! t)"
    by (auto simp: list_eq_iff_nth_eq)
  also have "\<dots> \<longleftrightarrow> (\<forall>t<k. xs ! t = xs ! (length xs - k + t))"
    using True by simp
  finally show ?thesis using True by (simp add: is_border_def)
qed

lemma is_border_take:
  assumes "i \<le> length xs"
  shows "is_border (take i xs) k \<longleftrightarrow> k < i \<and> (\<forall>t<k. xs ! t = xs ! (i - k + t))"
proof -
  from assms have len: "length (take i xs) = i" by simp
  have "(\<forall>t<k. take i xs ! t = take i xs ! (i - k + t)) \<longleftrightarrow> (\<forall>t<k. xs ! t = xs ! (i - k + t))"
    if "k < i"
    using that by simp
  then show ?thesis
    unfolding is_border_nth len by blast
qed

lemma is_border_0: "xs \<noteq> [] \<Longrightarrow> is_border xs 0"
  by (simp add: is_border_def)

lemma filter_rev_upt_greatest:
  "filter P (rev [0..<n]) = k # ks \<Longrightarrow> P k \<and> k < n \<and> (\<forall>j. j < n \<and> P j \<longrightarrow> j \<le> k)"
proof (induction n)
  case 0
  then show ?case by simp
next
  case (Suc n)
  show ?case
  proof (cases "P n")
    case True
    with Suc.prems have "k = n" by simp
    with True show ?thesis by auto
  next
    case False
    with Suc.prems have "filter P (rev [0..<n]) = k # ks" by simp
    from Suc.IH [OF this] False show ?thesis
      by (auto simp: less_Suc_eq)
  qed
qed

lemma longest_border_greatest:
  assumes "xs \<noteq> []"
  shows "is_border xs (longest_border xs)" and "is_border xs k \<Longrightarrow> k \<le> longest_border xs"
proof -
  from assms have "0 \<in> set (rev [0..<length xs])" by simp
  with assms have "0 \<in> set (filter (is_border xs) (rev [0..<length xs]))"
    by (simp add: is_border_0)
  then obtain b bs where f: "filter (is_border xs) (rev [0..<length xs]) = b # bs"
    by (cases "filter (is_border xs) (rev [0..<length xs])") auto
  then have lb: "longest_border xs = b" by (simp add: longest_border_def)
  from filter_rev_upt_greatest [OF f]
  have g: "is_border xs b" "\<forall>j. j < length xs \<and> is_border xs j \<longrightarrow> j \<le> b" by blast+
  from g(1) lb show "is_border xs (longest_border xs)" by simp
  assume "is_border xs k"
  moreover from this have "k < length xs" by (simp add: is_border_def)
  ultimately show "k \<le> longest_border xs" using g(2) lb by simp
qed

lemma longest_borderI:
  assumes "is_border xs b" and "\<And>k. is_border xs k \<Longrightarrow> k \<le> b"
  shows "longest_border xs = b"
proof -
  from assms(1) have ne: "xs \<noteq> []" by (auto simp: is_border_def)
  from longest_border_greatest(2) [OF ne assms(1)] assms(2) [OF longest_border_greatest(1) [OF ne]]
  show ?thesis by simp
qed

lemma border_of_prefix_border:
  assumes "i \<le> length xs" "is_border (take i xs) j" "is_border (take j xs) m"
  shows "is_border (take i xs) m"
proof -
  from assms(1,2) have j: "j < i" "\<forall>t<j. xs ! t = xs ! (i - j + t)"
    by (simp_all add: is_border_take)
  with assms(1) have "j \<le> length xs" by simp
  with assms(3) have m: "m < j" "\<forall>t<m. xs ! t = xs ! (j - m + t)"
    by (simp_all add: is_border_take)
  have "xs ! t = xs ! (i - m + t)" if "t < m" for t
  proof -
    from that m have "xs ! t = xs ! (j - m + t)" by simp
    also from that m j have "\<dots> = xs ! (i - j + (j - m + t))" by simp
    also from that m j have "i - j + (j - m + t) = i - m + t" by simp
    finally show ?thesis .
  qed
  with m(1) j(1) show ?thesis
    using assms(1) by (simp add: is_border_take)
qed

lemma shorter_border_of_border:
  assumes "i \<le> length xs" "is_border (take i xs) j" "is_border (take i xs) m" "m < j"
  shows "is_border (take j xs) m"
proof -
  from assms(1,2) have j: "j < i" "\<forall>t<j. xs ! t = xs ! (i - j + t)"
    by (simp_all add: is_border_take)
  from assms(1,3) have m: "m < i" "\<forall>t<m. xs ! t = xs ! (i - m + t)"
    by (simp_all add: is_border_take)
  have "xs ! t = xs ! (j - m + t)" if "t < m" for t
  proof -
    from that assms(4) j have "xs ! (j - m + t) = xs ! (i - j + (j - m + t))" by simp
    also from that assms(4) j have "i - j + (j - m + t) = i - m + t" by simp
    also from that m have "xs ! (i - m + t) = xs ! t" by simp
    finally show ?thesis by simp
  qed
  moreover from j assms(1) have "j \<le> length xs" by simp
  ultimately show ?thesis
    using assms(4) by (simp add: is_border_take)
qed

lemma border_extend:
  assumes "i < length xs"
  shows "is_border (take (Suc i) xs) (Suc k) \<longleftrightarrow> is_border (take i xs) k \<and> xs ! k = xs ! i"
proof -
  from assms have le: "i \<le> length xs" "Suc i \<le> length xs" by simp_all
  have "(\<forall>t<Suc k. xs ! t = xs ! (Suc i - Suc k + t))
      \<longleftrightarrow> (\<forall>t<k. xs ! t = xs ! (i - k + t)) \<and> xs ! k = xs ! i" if "k < i"
    using that by (auto simp: less_Suc_eq)
  then show ?thesis
    unfolding is_border_take [OF le(1)] is_border_take [OF le(2)] by auto
qed

subsection \<open>The inner loop\<close>

lemma fallback_correct:
  assumes "i < length colors" "filled colors prefixArray i"
    and "is_border (take i colors) j"
    and "\<forall>k. is_border (take i colors) k \<and> j < k \<longrightarrow> colors ! k \<noteq> colors ! i"
  shows "\<exists>j'. fallback colors prefixArray i j = Some (Inr j')
          \<and> is_border (take i colors) j'
          \<and> (\<forall>k. is_border (take i colors) k \<and> j' < k \<longrightarrow> colors ! k \<noteq> colors ! i)
          \<and> (j' = 0 \<or> colors ! i = colors ! j')"
  using assms(3,4)
proof (induction j rule: less_induct)
  case (less j)
  from assms(1) have ile: "i \<le> length colors" by simp
  from less.prems(1) ile have ji: "j < i" by (simp add: is_border_take)
  show ?case
  proof (cases "j = 0")
    case True
    then have "fallback colors prefixArray i j = Some (Inr j)"
      by (subst fallback.simps) simp
    with True less.prems show ?thesis by blast
  next
    case False
    then have j0: "0 < j" by simp
    show ?thesis
    proof (cases "colors ! i = colors ! j")
      case True
      with j0 ji assms(1) have "fallback colors prefixArray i j = Some (Inr j)"
        by (subst fallback.simps) simp
      with True less.prems show ?thesis by blast
    next
      case neq: False
      let ?b = "prefixArray ! (j - 1)"
      from assms(2) ji assms(1) have len: "j - 1 < length prefixArray"
        by (simp add: filled_def)
      with neq j0 ji assms(1) have step:
        "fallback colors prefixArray i j = fallback colors prefixArray i ?b"
        by (subst fallback.simps) simp
      from assms(2) j0 ji have b: "?b = longest_border (take j colors)"
        by (simp add: filled_def)
      from j0 ji assms(1) have ne: "take j colors \<noteq> []" by auto
      have bj: "is_border (take j colors) ?b"
        unfolding b by (rule longest_border_greatest(1) [OF ne])
      from ji assms(1) have "j \<le> length colors" by simp
      with bj have blt: "?b < j" by (simp add: is_border_take)
      have bi: "is_border (take i colors) ?b"
        by (rule border_of_prefix_border [OF ile less.prems(1) bj])
      have inv: "\<forall>k. is_border (take i colors) k \<and> ?b < k \<longrightarrow> colors ! k \<noteq> colors ! i"
      proof (intro allI impI)
        fix k assume k: "is_border (take i colors) k \<and> ?b < k"
        consider "j < k" | "k = j" | "k < j" by linarith
        then show "colors ! k \<noteq> colors ! i"
        proof cases
          case 1
          with k less.prems(2) show ?thesis by blast
        next
          case 2
          with neq show ?thesis by simp
        next
          case 3
          with k have "is_border (take j colors) k"
            by (intro shorter_border_of_border [OF ile less.prems(1)]) simp_all
          from longest_border_greatest(2) [OF ne this] b k show ?thesis by simp
        qed
      qed
      from less.IH [OF blt bi inv] show ?thesis
        by (simp only: step)
    qed
  qed
qed

subsection \<open>The outer loop\<close>

lemma longest_border_extend:
  assumes "i < length colors" "0 < i"
    and "is_border (take i colors) j'"
    and "\<forall>k. is_border (take i colors) k \<and> j' < k \<longrightarrow> colors ! k \<noteq> colors ! i"
    and "j' = 0 \<or> colors ! i = colors ! j'"
  shows "longest_border (take (Suc i) colors)
           = (if colors ! i = colors ! j' then j' + 1 else j')"
proof (cases "colors ! i = colors ! j'")
  case True
  have "longest_border (take (Suc i) colors) = Suc j'"
  proof (rule longest_borderI)
    from True assms(3) show "is_border (take (Suc i) colors) (Suc j')"
      by (simp add: border_extend [OF assms(1)])
  next
    fix k assume k: "is_border (take (Suc i) colors) k"
    show "k \<le> Suc j'"
    proof (cases k)
      case 0
      then show ?thesis by simp
    next
      case (Suc k')
      with k have "is_border (take i colors) k'" "colors ! k' = colors ! i"
        by (simp_all add: border_extend [OF assms(1)])
      with assms(4) have "\<not> j' < k'" by blast
      with Suc show ?thesis by simp
    qed
  qed
  with True show ?thesis by simp
next
  case False
  with assms(5) have j0: "j' = 0" by blast
  have "longest_border (take (Suc i) colors) = 0"
  proof (rule longest_borderI)
    from assms(1) show "is_border (take (Suc i) colors) 0"
      by (intro is_border_0) auto
  next
    fix k assume k: "is_border (take (Suc i) colors) k"
    show "k \<le> 0"
    proof (cases k)
      case 0
      then show ?thesis by simp
    next
      case (Suc k')
      with k have k': "is_border (take i colors) k'" "colors ! k' = colors ! i"
        by (simp_all add: border_extend [OF assms(1)])
      with assms(4) j0 have "k' = 0" by auto
      with k'(2) False j0 show ?thesis by simp
    qed
  qed
  with False j0 show ?thesis by simp
qed

lemma prefixLoop_correct:
  assumes "0 < i" "i \<le> length colors" "filled colors prefixArray i"
    and "j = longest_border (take i colors)"
  shows "\<exists>prefixArray'. prefixLoop colors prefixArray j i = Some (Inr prefixArray')
           \<and> filled colors prefixArray' (length colors)"
  using assms
proof (induction "length colors - i" arbitrary: i j prefixArray)
  case 0
  then have "i = length colors" by simp
  then have "prefixLoop colors prefixArray j i = Some (Inr prefixArray)"
    by (subst prefixLoop.simps) simp
  with 0 \<open>i = length colors\<close> show ?case by simp
next
  case (Suc d)
  then have i: "i < length colors" by simp
  from Suc.prems(1) i have ne: "take i colors \<noteq> []" by auto
  have bj: "is_border (take i colors) j"
    unfolding Suc.prems(4) by (rule longest_border_greatest(1) [OF ne])
  have "\<forall>k. is_border (take i colors) k \<and> j < k \<longrightarrow> colors ! k \<noteq> colors ! i"
    using longest_border_greatest(2) [OF ne] Suc.prems(4) by fastforce
  from fallback_correct [OF i Suc.prems(3) bj this]
  obtain j1 where j1: "fallback colors prefixArray i j = Some (Inr j1)"
    "is_border (take i colors) j1"
    "\<forall>k. is_border (take i colors) k \<and> j1 < k \<longrightarrow> colors ! k \<noteq> colors ! i"
    "j1 = 0 \<or> colors ! i = colors ! j1"
    by blast
  define j2 where "j2 = (if colors ! i = colors ! j1 then j1 + 1 else j1)"
  from j1(2) i have j1i: "j1 < i" by (simp add: is_border_take)
  from Suc.prems(3) i have len: "i < length prefixArray" by (simp add: filled_def)
  from j1(1) j1i i len have step:
    "prefixLoop colors prefixArray j i = prefixLoop colors (prefixArray[i := j2]) j2 (i + 1)"
    by (subst prefixLoop.simps) (simp add: j2_def Let_def)
  have j2: "j2 = longest_border (take (Suc i) colors)"
    unfolding j2_def
    by (rule longest_border_extend [OF i Suc.prems(1) j1(2) j1(3) j1(4), symmetric])
  have fl: "filled colors (prefixArray[i := j2]) (i + 1)"
    using Suc.prems(3) len j2 by (auto simp: filled_def less_Suc_eq nth_list_update)
  have "\<exists>prefixArray'. prefixLoop colors (prefixArray[i := j2]) j2 (i + 1) = Some (Inr prefixArray')
           \<and> filled colors prefixArray' (length colors)"
    using Suc.hyps(2) i fl j2 by (intro Suc.hyps(1)) simp_all
  then show ?case by (simp only: step)
qed

lemma longest_border_single: "longest_border [x] = 0"
  by (simp add: longest_border_def is_border_def)

lemma ArrayPeriodicityPNG_correct:
  assumes "colors \<noteq> []"
  shows "ArrayPeriodicityPNG colors
           = Some (Inr (int (length colors) - int (longest_border colors)))"
proof -
  let ?n = "length colors"
  from assms have n: "0 < ?n" by simp
  from assms have "take (Suc 0) colors = [hd colors]" by (cases colors) simp_all
  then have l1: "longest_border (take (Suc 0) colors) = 0"
    by (simp add: longest_border_single)
  have "filled colors (replicate ?n 0) 1"
    using n l1 by (simp add: filled_def)
  moreover have "0 = longest_border (take 1 colors)" using l1 by simp
  ultimately obtain prefixArray' where
    p: "prefixLoop colors (replicate ?n 0) 0 1 = Some (Inr prefixArray')"
       "filled colors prefixArray' ?n"
    using prefixLoop_correct [of 1 colors "replicate ?n 0" 0] n by auto
  from p(2) n have "prefixArray' ! (?n - 1) = longest_border (take (Suc (?n - 1)) colors)"
    by (simp add: filled_def)
  with n have "prefixArray' ! (?n - 1) = longest_border colors" by simp
  with p(1) n show ?thesis
    by (simp add: ArrayPeriodicityPNG_def Let_def)
qed

subsection \<open>Periods\<close>

lemma has_periodD: "has_period xs q \<Longrightarrow> t + q < length xs \<Longrightarrow> xs ! t = xs ! (t + q)"
  by (simp add: has_period_def)

lemma is_border_period:
  "is_border xs k \<longleftrightarrow> k < length xs \<and> has_period xs (length xs - k)"
proof (cases "k < length xs")
  case False
  then show ?thesis by (simp add: is_border_def)
next
  case True
  have "(\<forall>t<k. xs ! t = xs ! (length xs - k + t))
      \<longleftrightarrow> (\<forall>t. t + (length xs - k) < length xs \<longrightarrow> xs ! t = xs ! (t + (length xs - k)))"
  proof (intro iffI allI impI)
    fix t assume a: "\<forall>t<k. xs ! t = xs ! (length xs - k + t)" and "t + (length xs - k) < length xs"
    with True have "t < k" by linarith
    with a have "xs ! t = xs ! (length xs - k + t)" by blast
    then show "xs ! t = xs ! (t + (length xs - k))" by (simp only: add.commute)
  next
    fix t assume a: "\<forall>t. t + (length xs - k) < length xs \<longrightarrow> xs ! t = xs ! (t + (length xs - k))"
      and "t < k"
    with True have "t + (length xs - k) < length xs" by linarith
    with a have "xs ! t = xs ! (t + (length xs - k))" by blast
    then show "xs ! t = xs ! (length xs - k + t)" by (simp only: add.commute)
  qed
  with True show ?thesis by (simp add: is_border_nth has_period_def)
qed

lemma has_period_diff:
  assumes "has_period xs p" "has_period xs q" "q < p" "p + q \<le> length xs"
  shows "has_period xs (p - q)"
  unfolding has_period_def
proof (intro allI impI)
  fix t assume t: "t + (p - q) < length xs"
  show "xs ! t = xs ! (t + (p - q))"
  proof (cases "t + p < length xs")
    case True
    with assms(1) have a: "xs ! t = xs ! (t + p)" by (rule has_periodD)
    from assms(3) have e: "t + (p - q) + q = t + p" by simp
    from True e have "t + (p - q) + q < length xs" by simp
    with assms(2) have "xs ! (t + (p - q)) = xs ! (t + (p - q) + q)"
      by (rule has_periodD)
    then have "xs ! (t + (p - q)) = xs ! (t + p)" by (simp only: e)
    with a show ?thesis by (rule trans [OF _ sym])
  next
    case False
    with assms(4) have tq: "q \<le> t" by linarith
    with t assms(3) have "t - q + p < length xs" by linarith
    with assms(1) have a: "xs ! (t - q) = xs ! (t - q + p)" by (rule has_periodD)
    from tq t have "t - q + q < length xs" by linarith
    with assms(2) have b: "xs ! (t - q) = xs ! (t - q + q)"
      by (rule has_periodD)
    from tq assms(3) have e: "t - q + p = t + (p - q)" "t - q + q = t" by simp_all
    from b a show ?thesis unfolding e by (rule trans [OF sym])
  qed
qed

lemma has_period_gcd:
  assumes "has_period xs p" "has_period xs q" "p + q \<le> length xs"
  shows "has_period xs (gcd p q)"
  using assms
proof (induction "p + q" arbitrary: p q rule: less_induct)
  case less
  consider "p = q" | "q = 0" | "p = 0" | "0 < q" "q < p" | "0 < p" "p < q" by linarith
  then show ?case
  proof cases
    case 1
    with less.prems show ?thesis by simp
  next
    case 2
    with less.prems show ?thesis by simp
  next
    case 3
    with less.prems show ?thesis by simp
  next
    case 4
    have "has_period xs (p - q)"
      by (rule has_period_diff [OF less.prems(1,2) 4(2) less.prems(3)])
    moreover from 4 less.prems have "p - q + q < p + q" "p - q + q \<le> length xs" by simp_all
    ultimately have "has_period xs (gcd (p - q) q)"
      using less.prems(2) by (intro less.hyps [of "p - q" q]) simp_all
    moreover from 4 have "gcd (p - q) q = gcd p q"
      using gcd_diff1_nat [of q p] by simp
    ultimately show ?thesis by simp
  next
    case 5
    have "has_period xs (q - p)"
      by (rule has_period_diff [OF less.prems(2,1) 5(2)]) (use less.prems in simp)
    moreover from 5 less.prems have "p + (q - p) < p + q" "p + (q - p) \<le> length xs" by simp_all
    ultimately have "has_period xs (gcd p (q - p))"
      using less.prems(1) by (intro less.hyps [of p "q - p"]) simp_all
    moreover from 5 have "gcd p (q - p) = gcd p q"
      using gcd_diff1_nat [of p q] by (simp add: gcd.commute)
    ultimately show ?thesis by simp
  qed
qed

lemma has_period_mod:
  assumes "has_period xs d" "t < length xs"
  shows "xs ! t = xs ! (t mod d)"
  using assms(2)
proof (induction t rule: less_induct)
  case (less t)
  show ?case
  proof (cases "t < d")
    case True
    then show ?thesis by simp
  next
    case False
    then have d: "d \<le> t" by simp
    show ?thesis
    proof (cases "d = 0")
      case True
      then show ?thesis by simp
    next
      case False
      from False d less.prems have "xs ! (t - d) = xs ! ((t - d) mod d)"
        by (intro less.IH [of "t - d"]) simp_all
      moreover from d less.prems have "t - d + d < length xs" by simp
      with assms(1) have "xs ! (t - d) = xs ! (t - d + d)"
        by (rule has_periodD)
      moreover from d have "(t - d) mod d = t mod d" "t - d + d = t" by (simp_all add: le_mod_geq)
      ultimately show ?thesis by (metis (full_types))
    qed
  qed
qed

subsection \<open>Repeated blocks\<close>

lemma length_concat_replicate: "length (concat (replicate m u)) = m * length u"
  by (induction m) simp_all

lemma nth_concat_replicate:
  "t < m * length u \<Longrightarrow> concat (replicate m u) ! t = u ! (t mod length u)"
proof (induction m arbitrary: t)
  case 0
  then show ?case by simp
next
  case (Suc m)
  show ?case
  proof (cases "t < length u")
    case True
    then show ?thesis by (simp add: nth_append)
  next
    case False
    with Suc.prems have "t - length u < m * length u" by simp
    from Suc.IH [OF this] False show ?thesis
      by (simp add: nth_append le_mod_geq)
  qed
qed

lemma repeats_of_period:
  assumes "has_period u d" "d dvd length u" "0 < d"
  shows "repeats u d"
proof -
  let ?p = "length u"
  from assms(2,3) have dp: "d \<le> ?p \<or> ?p = 0" by (auto dest: dvd_imp_le)
  have len: "length (concat (replicate (?p div d) (take d u))) = ?p"
    using assms(2,3) dp by (auto simp: length_concat_replicate min_def)
  have "u ! t = concat (replicate (?p div d) (take d u)) ! t" if "t < ?p" for t
  proof -
    from that dp have ld: "length (take d u) = d" by auto
    from that assms(2) have "t < (?p div d) * length (take d u)" unfolding ld by simp
    then have "concat (replicate (?p div d) (take d u)) ! t
        = take d u ! (t mod length (take d u))"
      by (rule nth_concat_replicate)
    then have "concat (replicate (?p div d) (take d u)) ! t = take d u ! (t mod d)"
      unfolding ld .
    also from assms(3) have "\<dots> = u ! (t mod d)" by simp
    also from has_period_mod [OF assms(1) that] have "\<dots> = u ! t" by simp
    finally show ?thesis by simp
  qed
  with len have "u = concat (replicate (?p div d) (take d u))"
    by (simp add: list_eq_iff_nth_eq)
  with assms(2) show ?thesis by (simp add: repeats_def)
qed

lemma has_period_concat_replicate:
  "has_period (concat (replicate m u)) (length u)"
  unfolding has_period_def length_concat_replicate
proof (intro allI impI)
  fix t assume t: "t + length u < m * length u"
  then have "t < m * length u" by simp
  with t show "concat (replicate m u) ! t = concat (replicate m u) ! (t + length u)"
    by (simp add: nth_concat_replicate)
qed

lemma prefix_has_period:
  assumes "has_period (concat (replicate m u)) d" "0 < m"
  shows "has_period u d"
  unfolding has_period_def
proof (intro allI impI)
  fix t assume t: "t + d < length u"
  from assms(2) have "length u \<le> m * length u" by simp
  with t have lt: "t + d < m * length u" "t < m * length u" by linarith+
  then have "t + d < length (concat (replicate m u))" by (simp add: length_concat_replicate)
  with assms(1) have "concat (replicate m u) ! t = concat (replicate m u) ! (t + d)"
    by (rule has_periodD)
  with lt t show "u ! t = u ! (t + d)"
    by (simp add: nth_concat_replicate)
qed

lemma longest_border_concat_replicate:
  assumes "primitive_block u" "2 \<le> m"
  shows "longest_border (concat (replicate m u)) = m * length u - length u"
proof (rule longest_borderI)
  let ?w = "concat (replicate m u)"
  let ?p = "length u"
  let ?n = "m * ?p"
  from assms(1) have p: "0 < ?p" by (simp add: primitive_block_def)
  have n: "length ?w = ?n" by (rule length_concat_replicate)
  from assms(2) have "2 * ?p \<le> ?n" by (rule mult_le_mono1)
  then have pn: "?p + ?p \<le> ?n" by linarith
  with p have lt: "?n - ?p < ?n" by linarith
  from pn have "?n - (?n - ?p) = ?p" by simp
  with lt show "is_border ?w (?n - ?p)"
    using has_period_concat_replicate [of m u] by (simp add: is_border_period n)
  fix k assume k: "is_border ?w k"
  show "k \<le> ?n - ?p"
  proof (rule ccontr)
    assume "\<not> k \<le> ?n - ?p"
    then have big: "?n - ?p < k" by simp
    from k have kn: "k < ?n" and per: "has_period ?w (?n - k)"
      by (simp_all add: is_border_period n)
    let ?q = "?n - k"
    from big kn have q: "0 < ?q" "?q < ?p" by linarith+
    with pn have "?p + ?q \<le> length ?w" by (simp add: n)
    from has_period_gcd [OF has_period_concat_replicate per this]
    have "has_period ?w (gcd ?p ?q)" .
    moreover from assms(2) have "0 < m" by simp
    ultimately have "has_period u (gcd ?p ?q)" by (rule prefix_has_period)
    moreover have "gcd ?p ?q dvd ?p" by simp
    moreover from q have g0: "0 < gcd ?p ?q" by simp
    ultimately have r: "repeats u (gcd ?p ?q)" by (rule repeats_of_period)
    from q have "gcd ?p ?q \<le> ?q" by (intro gcd_le2_nat) simp
    with q g0 have "1 \<le> gcd ?p ?q \<and> gcd ?p ?q < ?p" by linarith
    then have "gcd ?p ?q \<in> set [1..<?p]" by simp
    with assms(1) have "\<not> repeats u (gcd ?p ?q)"
      by (simp only: primitive_block_def list_all_iff) blast
    with r show False by contradiction
  qed
qed

text \<open>
  The executable test \<open>primitive_block\<close> is the usual notion: the block is not a
  shorter list repeated twice or more.
\<close>

lemma primitive_block_iff:
  "primitive_block u \<longleftrightarrow> u \<noteq> [] \<and> (\<forall>v k. 2 \<le> k \<longrightarrow> u \<noteq> concat (replicate k v))"
proof (intro iffI conjI allI impI)
  assume "primitive_block u"
  then show "u \<noteq> []" by (simp add: primitive_block_def)
next
  fix v :: "'a list" and k :: nat
  assume p: "primitive_block u" and k: "2 \<le> k"
  show "u \<noteq> concat (replicate k v)"
  proof
    assume u: "u = concat (replicate k v)"
    from p have ne: "u \<noteq> []" by (simp add: primitive_block_def)
    have lu: "length u = k * length v" unfolding u by (rule length_concat_replicate)
    with ne have v0: "0 < length v" by (cases "length v") auto
    from k have "2 * length v \<le> k * length v" by (rule mult_le_mono1)
    with v0 lu have lt: "length v < length u" by linarith
    from k obtain k' where k': "k = Suc k'" by (cases k) auto
    have tk: "take (length v) u = v" unfolding u k' by simp
    from v0 lu have "length u div length v = k" by simp
    with lu tk u have "repeats u (length v)" by (simp add: repeats_def)
    moreover from v0 have "1 \<le> length v" by linarith
    with lt have "length v \<in> set [1..<length u]" by simp
    ultimately show False using p
      unfolding primitive_block_def list_all_iff by blast
  qed
next
  assume a: "u \<noteq> [] \<and> (\<forall>v k. 2 \<le> k \<longrightarrow> u \<noteq> concat (replicate k v))"
  have "\<not> repeats u d" if "d \<in> set [1..<length u]" for d
  proof
    assume r: "repeats u d"
    from that have d: "1 \<le> d" "d < length u" by simp_all
    from r have dv: "d dvd length u" and u: "u = concat (replicate (length u div d) (take d u))"
      by (simp_all add: repeats_def)
    from dv obtain k where k: "length u = d * k" by (auto simp: dvd_def)
    with d have "2 \<le> k" by (cases k; cases "k - 1") auto
    moreover from k d have "length u div d = k" by simp
    ultimately show False using a u by metis
  qed
  with a show "primitive_block u"
    by (simp add: primitive_block_def list_all_iff)
qed

text \<open>
  C1: for every line of at least one colour the lossless detector returns, without a
  panic and after finitely many rounds of its inner loop, the length of the line minus
  the length of its longest border (the longest proper prefix that is also a suffix);
  and for a block that is not itself a shorter block repeated, the line made of the
  block repeated \<open>m \<ge> 2\<close> times gives exactly the length of the block.
\<close>

theorem ArrayPeriodicityPNG_period:
  "(colors \<noteq> [] \<longrightarrow>
      ArrayPeriodicityPNG colors = Some (Inr (int (length colors) - int (longest_border colors)))
      \<and> is_border colors (longest_border colors)
      \<and> (\<forall>k. is_border colors k \<longrightarrow> k \<le> longest_border colors))
   \<and> (primitive_block block \<and> 2 \<le> m \<longrightarrow>
      ArrayPeriodicityPNG (concat (replicate m block)) = Some (Inr (int (length block))))"
proof (intro conjI impI)
  assume "colors \<noteq> []"
  then show "ArrayPeriodicityPNG colors
      = Some (Inr (int (length colors) - int (longest_border colors)))"
    by (rule ArrayPeriodicityPNG_correct)
  from \<open>colors \<noteq> []\<close> show "is_border colors (longest_border colors)"
    by (rule longest_border_greatest(1))
  from \<open>colors \<noteq> []\<close> show "\<forall>k. is_border colors k \<longrightarrow> k \<le> longest_border colors"
    by (blast intro: longest_border_greatest(2))
next
  assume a: "primitive_block block \<and> 2 \<le> m"
  let ?w = "concat (replicate m block)"
  from a have p: "0 < length block" by (simp add: primitive_block_def)
  with a have "0 < m * length block" by simp
  then have ne: "?w \<noteq> []" by (metis length_concat_replicate length_greater_0_conv)
  from a have "length block \<le> m * length block" by simp
  then have "int (m * length block) - int (m * length block - length block) = int (length block)"
    by linarith
  with a show "ArrayPeriodicityPNG ?w = Some (Inr (int (length block)))"
    by (simp add: ArrayPeriodicityPNG_correct [OF ne] longest_border_concat_replicate
        length_concat_replicate)
qed

theorem ArrayPeriodicityPNG_period_witness:
  "[\<lparr>R = 0, G = 0, B = 0\<rparr>, \<lparr>R = 1, G = 0, B = 0\<rparr>, \<lparr>R = 0, G = 0, B = 0\<rparr>, \<lparr>R = 1, G = 0, B = 0\<rparr>] \<noteq> []
   \<and> longest_border [\<lparr>R = 0, G = 0, B = 0\<rparr>, \<lparr>R = 1, G = 0, B = 0\<rparr>, \<lparr>R = 0, G = 0, B = 0\<rparr>, \<lparr>R = 1, G = 0, B = 0\<rparr>] = 2
   \<and> ArrayPeriodicityPNG [\<lparr>R = 0, G = 0, B = 0\<rparr>, \<lparr>R = 1, G = 0, B = 0\<rparr>, \<lparr>R = 0, G = 0, B = 0\<rparr>, \<lparr>R = 1, G = 0, B = 0\<rparr>]
       = Some (Inr 2)
   \<and> primitive_block [\<lparr>R = 0, G = 0, B = 0\<rparr>, \<lparr>R = 1, G = 0, B = 0\<rparr>] \<and> (2::nat) \<le> 2
   \<and> ArrayPeriodicityPNG (concat (replicate 2 [\<lparr>R = 0, G = 0, B = 0\<rparr>, \<lparr>R = 1, G = 0, B = 0\<rparr>]))
       = Some (Inr 2)"
proof -
  let ?a = "\<lparr>R = 0, G = 0, B = 0\<rparr>" and ?b = "\<lparr>R = 1, G = 0, B = 0\<rparr>"
  have p: "primitive_block [?a, ?b]" by code_simp
  have l: "longest_border [?a, ?b, ?a, ?b] = 2" by code_simp
  note inst = ArrayPeriodicityPNG_period [of "[?a, ?b, ?a, ?b]" "[?a, ?b]" 2]
  from inst have "ArrayPeriodicityPNG [?a, ?b, ?a, ?b]
      = Some (Inr (int (length [?a, ?b, ?a, ?b]) - int (longest_border [?a, ?b, ?a, ?b])))"
    by blast
  then have one: "ArrayPeriodicityPNG [?a, ?b, ?a, ?b] = Some (Inr 2)"
    unfolding l by simp
  from inst p
  have "ArrayPeriodicityPNG (concat (replicate 2 [?a, ?b])) = Some (Inr (int (length [?a, ?b])))"
    by blast
  then have two: "ArrayPeriodicityPNG (concat (replicate 2 [?a, ?b])) = Some (Inr 2)"
    by simp
  from p l one two show ?thesis by simp
qed

section \<open>Results: the lossy detector\<close>

lemma fold_enumerate_sum:
  fixes g :: "nat \<Rightarrow> 'a \<Rightarrow> 'b::comm_monoid_add"
  shows "fold (\<lambda>(idx, x) s. s + g idx x) (enumerate m xs) a
           = a + (\<Sum>j<length xs. g (m + j) (xs ! j))"
proof (induction xs arbitrary: m a)
  case Nil
  show ?case by simp
next
  case (Cons x xs)
  have "(\<Sum>j<length (x # xs). g (m + j) ((x # xs) ! j))
      = g m x + (\<Sum>j<length xs. g (Suc m + j) (xs ! j))"
    by (simp only: length_Cons sum.lessThan_Suc_shift) simp
  then show ?case
    by (simp add: Cons.IH add.assoc)
qed

lemma shiftSum_sum:
  "shiftSum colors k =
     (\<Sum>i<length colors. ColorDiff (colors ! ((i + k) mod length colors)) (colors ! i))"
  unfolding shiftSum_def
  using fold_enumerate_sum [of "\<lambda>idx color. ColorDiff (colors ! ((idx + k) mod length colors)) color" 0 colors 0]
  by simp

lemma best_step_keep:
  assumes "best_shift colors k m" "\<not> sint (shiftSum colors k) < sint (shiftSum colors m)"
  shows "best_shift colors (k + 1) m"
  unfolding best_shift_def
proof (intro conjI allI impI)
  fix k' assume "1 \<le> k' \<and> k' < k + 1"
  then have "k' < k \<or> k' = k" by auto
  with assms \<open>1 \<le> k' \<and> k' < k + 1\<close> show "sint (shiftSum colors m) \<le> sint (shiftSum colors k')"
    unfolding best_shift_def by auto
qed (use assms in \<open>auto simp: best_shift_def\<close>)

lemma best_step_new:
  assumes "best_shift colors k m" "sint (shiftSum colors k) < sint (shiftSum colors m)" "1 \<le> k"
  shows "best_shift colors (k + 1) k"
  unfolding best_shift_def
proof (intro conjI allI impI)
  fix k' assume a: "1 \<le> k' \<and> k' < k + 1"
  then have "k' < k \<or> k' = k" by auto
  then show "sint (shiftSum colors k) \<le> sint (shiftSum colors k')"
  proof
    assume "k' < k"
    with a assms(1) have "sint (shiftSum colors m) \<le> sint (shiftSum colors k')"
      unfolding best_shift_def by auto
    with assms(2) show ?thesis by simp
  qed simp
next
  fix k' assume a: "1 \<le> k' \<and> k' < k"
  with assms(1) have "sint (shiftSum colors m) \<le> sint (shiftSum colors k')"
    unfolding best_shift_def by auto
  with assms(2) show "sint (shiftSum colors k) < sint (shiftSum colors k')" by simp
qed (use assms in auto)

lemma shiftLoop_best:
  assumes "2 \<le> k" "k \<le> length colors" "best_shift colors k minidx" "minsum = shiftSum colors minidx"
  shows "best_shift colors (length colors) (shiftLoop colors k minsum minidx)"
  using assms
proof (induction colors k minsum minidx rule: shiftLoop.induct)
  case (1 colors k minsum minidx)
  show ?case
  proof (cases "k < length colors")
    case False
    with "1.prems" have "k = length colors" by simp
    moreover from False have "shiftLoop colors k minsum minidx = minidx"
      by (subst shiftLoop.simps) simp
    ultimately show ?thesis using "1.prems" by simp
  next
    case True
    from "1.prems" have k1: "k \<noteq> 1" by simp
    show ?thesis
    proof (cases "shiftSum colors k <s minsum")
      case less: True
      with True k1 have step: "shiftLoop colors k minsum minidx
          = shiftLoop colors (k + 1) (shiftSum colors k) k"
        by (subst shiftLoop.simps) (simp add: Let_def)
      from less "1.prems" have "sint (shiftSum colors k) < sint (shiftSum colors minidx)"
        by (simp add: word_sless_alt)
      with "1.prems" have "best_shift colors (k + 1) k"
        by (intro best_step_new) auto
      with "1.IH"(2) [OF True refl k1 less] True "1.prems" show ?thesis
        unfolding step by simp
    next
      case nless: False
      with True k1 have step: "shiftLoop colors k minsum minidx
          = shiftLoop colors (k + 1) minsum minidx"
        by (subst shiftLoop.simps) (simp add: Let_def)
      from nless "1.prems" have "\<not> sint (shiftSum colors k) < sint (shiftSum colors minidx)"
        by (simp add: word_sless_alt)
      with "1.prems" have "best_shift colors (k + 1) minidx"
        by (intro best_step_keep) auto
      with "1.IH"(3) [OF True refl k1 nless] True "1.prems" show ?thesis
        unfolding step by simp
    qed
  qed
qed

lemma best_1: "best_shift colors 2 1"
  by (auto simp: best_shift_def) (metis One_nat_def Suc_1 le_antisym less_Suc_eq_le order_refl)

text \<open>
  What the loop does establish: for a line of at least two colours the detector returns
  the first shift whose sum is the least, for the sums as the loop holds them, in a
  64-bit \<^verbatim>\<open>int\<close> that wraps around.
\<close>

lemma ArrayPeriodicityJPGPlus_best:
  assumes "2 \<le> length colors"
  shows "\<exists>k. ArrayPeriodicityJPGPlus colors = int k \<and> best_shift colors (length colors) k"
proof -
  from assms have "1 < length colors" by simp
  then have first: "shiftLoop colors 1 0 1 = shiftLoop colors 2 (shiftSum colors 1) 1"
    by (subst shiftLoop.simps) (simp add: Let_def numeral_2_eq_2)
  have "best_shift colors (length colors) (shiftLoop colors 2 (shiftSum colors 1) 1)"
    using assms best_1 by (intro shiftLoop_best) auto
  then have "best_shift colors (length colors) (shiftLoop colors 1 0 1)"
    by (simp only: first)
  then show ?thesis
    unfolding ArrayPeriodicityJPGPlus_def by blast
qed

subsection \<open>Lines on which the sums do not wrap\<close>

text \<open>
  The colours of a sampled line have 16-bit channels.
\<close>

lemma widen_le: "widen c \<le> 0xFFFF"
proof -
  have "take_bit 16 (widen c) = widen c"
    unfolding widen_def
    by (rule bit_word_eqI) (auto simp add: bit_simps dest: bit_imp_le_length)
  then have "uint (widen c) = uint (take_bit 16 (widen c))" by simp
  also have "\<dots> = take_bit 16 (uint (widen c))" by (rule unsigned_take_bit_eq)
  also have "\<dots> < 2 ^ 16" by (rule take_bit_int_less_exp)
  finally have "uint (widen c) < 65536" by simp
  then show ?thesis by (simp add: word_le_def)
qed

lemma sixteen_bit_RGBA: "sixteen_bit (RGBA c)"
  by (cases c) (simp add: sixteen_bit_def RGBA_def widen_le)

lemma sixteen_bit_rowColors: "\<forall>c\<in>set (rowColors img rowIdx). sixteen_bit c"
  by (auto simp add: rowColors_def sixteen_bit_RGBA)

lemma sixteen_bit_colColors: "\<forall>c\<in>set (colColors img colIdx). sixteen_bit c"
  by (auto simp add: colColors_def sixteen_bit_RGBA)

text \<open>
  The square of a channel difference, as the 64-bit \<^verbatim>\<open>int\<close> holds it: the true square
  when the first channel is not the smaller one, and about \<open>- 2^33\<close> times the difference
  otherwise. Either way its size is at most \<open>2^49\<close>.
\<close>

lemma channel_square_value:
  fixes a b :: "32 word"
  assumes "a \<le> 0xFFFF" "b \<le> 0xFFFF"
  shows "\<exists>s. (ucast (a - b) :: 64 word) * ucast (a - b) = word_of_int s
           \<and> - (2 ^ 49) \<le> s \<and> s \<le> 2 ^ 32"
proof -
  from assms have a: "uint a \<le> 65535" and b: "uint b \<le> 65535"
    by (simp_all add: word_le_def)
  have a0: "0 \<le> uint a" and b0: "0 \<le> uint b" by simp_all
  have uc: "(ucast (a - b) :: 64 word) = word_of_int (uint (a - b))"
    by (rule ucast_eq)
  show ?thesis
  proof (cases "b \<le> a")
    case True
    then have d: "uint (a - b) = uint a - uint b"
      by (simp add: uint_sub_if' word_le_def)
    let ?d = "uint a - uint b"
    from True have "uint b \<le> uint a" by (simp add: word_le_def)
    with a b0 have r: "0 \<le> ?d" "?d \<le> 65535" by linarith+
    define q where "q = ?d * ?d"
    from r have "q \<le> 65535 * 65535" unfolding q_def by (intro mult_mono) simp_all
    moreover have "0 \<le> q" unfolding q_def by simp
    ultimately have "- (2 ^ 49) \<le> q \<and> q \<le> 2 ^ 32" by simp
    then have "- (2 ^ 49) \<le> ?d * ?d \<and> ?d * ?d \<le> 2 ^ 32" unfolding q_def .
    moreover have "(ucast (a - b) :: 64 word) * ucast (a - b) = word_of_int (?d * ?d)"
      unfolding uc d by simp
    ultimately show ?thesis by blast
  next
    case False
    then have lt: "uint a < uint b" by (simp add: word_le_def not_le word_less_def)
    then have d: "uint (a - b) = uint a - uint b + 2 ^ 32"
      by (simp add: uint_sub_if')
    let ?e = "uint b - uint a"
    from lt b a0 have r: "1 \<le> ?e" "?e \<le> 65535" by linarith+
    let ?s = "?e * ?e - 2 ^ 33 * ?e"
    have "(2 ^ 32 - ?e) * (2 ^ 32 - ?e) = ?s + 2 ^ 64"
      by (simp add: algebra_simps)
    then have "(word_of_int ((2 ^ 32 - ?e) * (2 ^ 32 - ?e)) :: 64 word) = word_of_int (?s + 2 ^ 64)"
      by simp
    also have "\<dots> = word_of_int ?s"
      by (simp add: word_of_int_eq_iff take_bit_eq_mod)
    finally have w: "(word_of_int ((2 ^ 32 - ?e) * (2 ^ 32 - ?e)) :: 64 word) = word_of_int ?s" .
    have "uint (a - b) = 2 ^ 32 - ?e" unfolding d by simp
    then have "(ucast (a - b) :: 64 word) * ucast (a - b) = word_of_int ((2 ^ 32 - ?e) * (2 ^ 32 - ?e))"
      unfolding uc by simp
    with w have eq: "(ucast (a - b) :: 64 word) * ucast (a - b) = word_of_int ?s" by simp
    define q where "q = ?e * ?e"
    define p where "p = ?e"
    from r have "q \<le> 65535 * 65535" unfolding q_def by (intro mult_mono) simp_all
    moreover from r have "0 \<le> q" unfolding q_def by simp
    moreover from r have "1 \<le> p" "p \<le> 65535" unfolding p_def by simp_all
    ultimately have "- (2 ^ 49) \<le> q - 2 ^ 33 * p \<and> q - 2 ^ 33 * p \<le> 2 ^ 32" by simp
    then have "- (2 ^ 49) \<le> ?s \<and> ?s \<le> 2 ^ 32" unfolding q_def p_def .
    with eq show ?thesis by blast
  qed
qed

lemma ColorDiff_bound:
  assumes "sixteen_bit x" "sixteen_bit y"
  shows "\<bar>sint (ColorDiff x y)\<bar> \<le> 3 * 2 ^ 49"
proof -
  from assms obtain r g b where
    r: "(ucast (R x - R y) :: 64 word) * ucast (R x - R y) = word_of_int r" "- (2 ^ 49) \<le> r" "r \<le> 2 ^ 32"
    and g: "(ucast (G x - G y) :: 64 word) * ucast (G x - G y) = word_of_int g" "- (2 ^ 49) \<le> g" "g \<le> 2 ^ 32"
    and b: "(ucast (B x - B y) :: 64 word) * ucast (B x - B y) = word_of_int b" "- (2 ^ 49) \<le> b" "b \<le> 2 ^ 32"
    unfolding sixteen_bit_def using channel_square_value by meson
  have "ColorDiff x y = word_of_int r + word_of_int g + word_of_int b"
    by (simp add: ColorDiff_def Let_def r(1) g(1) b(1))
  also have "\<dots> = word_of_int (r + g + b)" by simp
  finally have "sint (ColorDiff x y) = sint (word_of_int (r + g + b) :: 64 word)"
    by (rule arg_cong)
  also have "\<dots> = signed_take_bit (LENGTH(64) - 1) (r + g + b)"
    by (rule sint_sbintrunc')
  finally have "sint (ColorDiff x y) = signed_take_bit 63 (r + g + b)"
    by simp
  also from r g b have "\<dots> = r + g + b"
    by (intro signed_take_bit_int_eq_self) simp_all
  finally show ?thesis using r g b by simp
qed

lemma sint_sum_no_wrap:
  fixes f :: "nat \<Rightarrow> 64 word"
  assumes "\<And>i. i < n \<Longrightarrow> \<bar>sint (f i)\<bar> \<le> M" and "int n * M < 2 ^ 63"
  shows "sint (\<Sum>i<n. f i) = (\<Sum>i<n. sint (f i)) \<and> \<bar>\<Sum>i<n. sint (f i)\<bar> \<le> int n * M"
  using assms
proof (induction n)
  case 0
  show ?case by simp
next
  case (Suc n)
  from Suc.prems(1) [of n] have M0: "0 \<le> M" by simp
  then have "int n * M \<le> int (Suc n) * M" by (intro mult_right_mono) simp_all
  with Suc.prems(2) have "int n * M < 2 ^ 63" by simp
  with Suc have ih: "sint (\<Sum>i<n. f i) = (\<Sum>i<n. sint (f i))" "\<bar>\<Sum>i<n. sint (f i)\<bar> \<le> int n * M"
    by simp_all
  from Suc.prems(1) [of n] have fn: "\<bar>sint (f n)\<bar> \<le> M" by simp
  let ?t = "(\<Sum>i<n. sint (f i)) + sint (f n)"
  from ih(2) fn have b: "\<bar>?t\<bar> \<le> int (Suc n) * M"
    by (simp add: algebra_simps)
  with Suc.prems(2) have rng: "- (2 ^ 63) \<le> ?t" "?t < 2 ^ 63" by linarith+
  have "sint (\<Sum>i<Suc n. f i) = sint ((\<Sum>i<n. f i) + f n)" by simp
  also have "\<dots> = signed_take_bit 63 (sint (\<Sum>i<n. f i) + sint (f n))"
    by (simp add: sint_word_ariths)
  also have "\<dots> = signed_take_bit 63 ?t" by (simp only: ih(1))
  also from rng have "\<dots> = ?t" by (rule signed_take_bit_int_eq_self)
  finally show ?case using b by simp
qed

text \<open>
  On a line of at most 5461 colours with 16-bit channels no sum of the loop leaves the
  range of the 64-bit \<^verbatim>\<open>int\<close>: the sum the loop holds is the total sum, and the
  detector returns the first shift at which the total sum is the least.
\<close>

lemma shiftSum_total:
  assumes "\<forall>c\<in>set colors. sixteen_bit c" "length colors \<le> 5461"
  shows "sint (shiftSum colors k) = totalSum colors k"
proof -
  let ?n = "length colors"
  let ?f = "\<lambda>i. ColorDiff (colors ! ((i + k) mod ?n)) (colors ! i)"
  have bound: "\<bar>sint (?f i)\<bar> \<le> 3 * 2 ^ 49" if "i < ?n" for i
  proof -
    from that have "0 < ?n" by linarith
    then have "(i + k) mod ?n < ?n" by (rule mod_less_divisor)
    with assms(1) that have "sixteen_bit (colors ! ((i + k) mod ?n))" "sixteen_bit (colors ! i)"
      by simp_all
    then show ?thesis by (rule ColorDiff_bound)
  qed
  from assms(2) have "int ?n \<le> 5461" by simp
  then have "int ?n * (3 * 2 ^ 49) \<le> 5461 * (3 * 2 ^ 49)"
    by (intro mult_right_mono) simp_all
  then have small: "int ?n * (3 * 2 ^ 49) < 2 ^ 63" by simp
  from sint_sum_no_wrap [of ?n ?f "3 * 2 ^ 49", OF bound small]
  have "sint (\<Sum>i<?n. ?f i) = (\<Sum>i<?n. sint (?f i))" by simp
  then show ?thesis
    by (simp only: shiftSum_sum totalSum_def)
qed

lemma ArrayPeriodicityJPGPlus_least_total:
  assumes "\<forall>c\<in>set colors. sixteen_bit c" "2 \<le> length colors" "length colors \<le> 5461"
  shows "\<exists>k. ArrayPeriodicityJPGPlus colors = int k \<and> 1 \<le> k \<and> k < length colors
           \<and> (\<forall>k'. 1 \<le> k' \<and> k' < length colors \<longrightarrow> totalSum colors k \<le> totalSum colors k')
           \<and> (\<forall>k'. 1 \<le> k' \<and> k' < k \<longrightarrow> totalSum colors k < totalSum colors k')"
proof -
  from ArrayPeriodicityJPGPlus_best [OF assms(2)] obtain k
    where k: "ArrayPeriodicityJPGPlus colors = int k" and b: "best_shift colors (length colors) k"
    by blast
  have eq: "sint (shiftSum colors j) = totalSum colors j" for j
    using assms(1,3) by (rule shiftSum_total)
  from b have "1 \<le> k \<and> k < length colors
      \<and> (\<forall>k'. 1 \<le> k' \<and> k' < length colors \<longrightarrow> totalSum colors k \<le> totalSum colors k')
      \<and> (\<forall>k'. 1 \<le> k' \<and> k' < k \<longrightarrow> totalSum colors k < totalSum colors k')"
    unfolding best_shift_def eq .
  with k show ?thesis by blast
qed

subsection \<open>A line on which the sums wrap\<close>

lemma ColorDiff_same: "ColorDiff c c = 0"
  by (simp add: ColorDiff_def)

lemma length_alternating: "length (alternating m) = 2 * m"
  by (simp add: alternating_def length_concat_replicate)

lemma nth_alternating:
  assumes "t < 2 * m"
  shows "alternating m ! t
    = (if even t then \<lparr>R = 0, G = 0, B = 0\<rparr> else \<lparr>R = 0xFFFF, G = 0xFFFF, B = 0xFFFF\<rparr>)"
proof -
  let ?u = "[\<lparr>R = 0, G = 0, B = 0\<rparr>, \<lparr>R = 0xFFFF, G = 0xFFFF, B = 0xFFFF\<rparr>]"
  from assms have "t < m * length ?u" by simp
  then have "concat (replicate m ?u) ! t = ?u ! (t mod length ?u)"
    by (rule nth_concat_replicate)
  moreover have "length ?u = 2" by simp
  moreover have "?u ! (t mod 2)
      = (if even t then \<lparr>R = 0, G = 0, B = 0\<rparr> else \<lparr>R = 0xFFFF, G = 0xFFFF, B = 0xFFFF\<rparr>)"
  proof (cases "even t")
    case True
    then have "t mod 2 = 0" by (simp add: even_iff_mod_2_eq_zero)
    with True show ?thesis by (simp only: nth_Cons_0 if_True)
  next
    case False
    then have "t mod 2 = 1" by (simp add: odd_iff_mod_2_eq_one)
    with False show ?thesis by (simp only: if_False) simp
  qed
  ultimately show ?thesis by (simp only: alternating_def)
qed

lemma sum_in_pairs:
  fixes g :: "nat \<Rightarrow> 'a::comm_monoid_add"
  shows "(\<Sum>i<2 * m. g i) = (\<Sum>j<m. g (2 * j) + g (2 * j + 1))"
proof (induction m)
  case 0
  show ?case by simp
next
  case (Suc m)
  have "(\<Sum>i<2 * Suc m. g i) = (\<Sum>i<2 * m. g i) + g (2 * m) + g (2 * m + 1)"
    by simp
  with Suc.IH show ?case by (simp add: add.assoc)
qed

text \<open>
  Any quantity summed over the positions of the alternating line at the shift \<open>k\<close>:
  at an even shift every position meets its own colour, at an odd shift the black
  positions meet white and the white ones black.
\<close>

lemma sum_alternating:
  fixes f :: "Color \<Rightarrow> Color \<Rightarrow> 'a::comm_semiring_1"
  defines "black \<equiv> \<lparr>R = 0, G = 0, B = 0\<rparr>"
    and "white \<equiv> \<lparr>R = 0xFFFF, G = 0xFFFF, B = 0xFFFF\<rparr>"
  shows "(\<Sum>i<length (alternating m).
            f (alternating m ! ((i + k) mod length (alternating m))) (alternating m ! i))
         = (if even k then of_nat m * (f black black + f white white)
            else of_nat m * (f white black + f black white))"
proof -
  let ?c = "\<lambda>t::nat. if even t then black else white"
  have pos: "f (alternating m ! ((i + k) mod (2 * m))) (alternating m ! i)
      = f (?c (i + k)) (?c i)" if "i < 2 * m" for i
  proof -
    from that have m: "0 < 2 * m" by simp
    then have lt: "(i + k) mod (2 * m) < 2 * m" by (rule mod_less_divisor)
    have par: "even ((i + k) mod (2 * m)) \<longleftrightarrow> even (i + k)"
      by (simp add: dvd_mod_iff)
    from nth_alternating [OF lt] nth_alternating [OF that] par show ?thesis
      by (simp add: black_def white_def)
  qed
  have "(\<Sum>i<length (alternating m).
            f (alternating m ! ((i + k) mod length (alternating m))) (alternating m ! i))
      = (\<Sum>i<2 * m. f (?c (i + k)) (?c i))"
    unfolding length_alternating by (rule sum.cong) (simp_all add: pos)
  also have "\<dots> = (\<Sum>j<m. f (?c (2 * j + k)) (?c (2 * j)) + f (?c (2 * j + 1 + k)) (?c (2 * j + 1)))"
    by (rule sum_in_pairs)
  also have "\<dots> = (\<Sum>j<m. if even k then f black black + f white white
                                else f white black + f black white)"
    by (rule sum.cong) simp_all
  also have "\<dots> = (if even k then of_nat m * (f black black + f white white)
                    else of_nat m * (f white black + f black white))"
    by simp
  finally show ?thesis .
qed

lemma shiftSum_alternating:
  "shiftSum (alternating m) k
     = (if even k then 0
        else of_nat m * (ColorDiff \<lparr>R = 0xFFFF, G = 0xFFFF, B = 0xFFFF\<rparr> \<lparr>R = 0, G = 0, B = 0\<rparr>
                         + ColorDiff \<lparr>R = 0, G = 0, B = 0\<rparr> \<lparr>R = 0xFFFF, G = 0xFFFF, B = 0xFFFF\<rparr>))"
  unfolding shiftSum_sum sum_alternating by (simp add: ColorDiff_same)

lemma totalSum_alternating:
  "totalSum (alternating m) k
     = (if even k then 0
        else int m * (sint (ColorDiff \<lparr>R = 0xFFFF, G = 0xFFFF, B = 0xFFFF\<rparr> \<lparr>R = 0, G = 0, B = 0\<rparr>)
                      + sint (ColorDiff \<lparr>R = 0, G = 0, B = 0\<rparr> \<lparr>R = 0xFFFF, G = 0xFFFF, B = 0xFFFF\<rparr>)))"
  unfolding totalSum_def
  using sum_alternating [of "\<lambda>x y. sint (ColorDiff x y)" m k]
  by (simp add: ColorDiff_same)

lemma white_black: 
  "sint (ColorDiff \<lparr>R = 0xFFFF, G = 0xFFFF, B = 0xFFFF\<rparr> \<lparr>R = 0, G = 0, B = 0\<rparr>) = 12884508675"
  "sint (ColorDiff \<lparr>R = 0, G = 0, B = 0\<rparr> \<lparr>R = 0xFFFF, G = 0xFFFF, B = 0xFFFF\<rparr>) = - 1688811205951485"
  by code_simp+

lemma wrapped_odd_sum:
  "sint (5462 * (ColorDiff \<lparr>R = 0xFFFF, G = 0xFFFF, B = 0xFFFF\<rparr> \<lparr>R = 0, G = 0, B = 0\<rparr>
                + ColorDiff \<lparr>R = 0, G = 0, B = 0\<rparr> \<lparr>R = 0xFFFF, G = 0xFFFF, B = 0xFFFF\<rparr>))
     = 9222527641988923396"
  by code_simp

text \<open>
  C9, at a row of 10924 pixels that alternates black and white (16-bit channels): at
  the shift 1 every white pixel is compared with a black one the wrong way round, a
  \<open>ColorDiff\<close> of about \<open>- 2^51\<close> (the defect of C5), and the 5462 of them take the sum
  below \<open>- 2^63\<close>, where the 64-bit \<^verbatim>\<open>int\<close> wraps around to a large positive number.
  The total sum is the least at the shift 1, and the detector returns the shift 2.
\<close>

theorem wrapped_sum_hides_least_total:
  "length (alternating 5462) = 10924
   \<and> totalSum (alternating 5462) 1 = - 9224216431720628220
   \<and> totalSum (alternating 5462) 2 = 0
   \<and> sint (shiftSum (alternating 5462) 1) = 9222527641988923396
   \<and> sint (shiftSum (alternating 5462) 2) = 0
   \<and> ArrayPeriodicityJPGPlus (alternating 5462) = 2"
proof -
  let ?l = "alternating 5462"
  have len: "length ?l = 10924" by (simp add: length_alternating)
  have t1: "totalSum ?l 1 = - 9224216431720628220"
    by (simp add: totalSum_alternating white_black)
  have t2: "totalSum ?l 2 = 0"
    by (simp add: totalSum_alternating)
  have odd: "sint (shiftSum ?l k) = 9222527641988923396" if "odd k" for k
    using that wrapped_odd_sum by (simp add: shiftSum_alternating)
  have even: "sint (shiftSum ?l k) = 0" if "even k" for k
    using that by (simp add: shiftSum_alternating)
  from len have "2 \<le> length ?l" by simp
  from ArrayPeriodicityJPGPlus_best [OF this] obtain k
    where k: "ArrayPeriodicityJPGPlus ?l = int k" and b: "best_shift ?l (length ?l) k"
    by blast
  from b have le: "sint (shiftSum ?l k) \<le> sint (shiftSum ?l 2)"
    and first: "\<forall>k'. 1 \<le> k' \<and> k' < k \<longrightarrow> sint (shiftSum ?l k) < sint (shiftSum ?l k')"
    and k1: "1 \<le> k"
    unfolding best_shift_def len by simp_all
  have ek: "even k"
  proof (rule ccontr)
    assume "odd k"
    with le odd [of k] even [of 2] show False by simp
  qed
  with k1 have "2 \<le> k" by (cases k; cases "k - 1") auto
  moreover have "\<not> 2 < k"
  proof
    assume "2 < k"
    with first have "sint (shiftSum ?l k) < sint (shiftSum ?l 2)" by simp
    with even [OF ek] even [of 2] show False by simp
  qed
  ultimately have "k = 2" by simp
  with k have r: "ArrayPeriodicityJPGPlus ?l = 2" by simp
  from len t1 t2 odd [of 1] even [of 2] r show ?thesis by simp
qed

end
